theory Spec2Isabelle
  imports Complex_Main "HOL-Library.AList" "HOL-Library.Multiset" "HOL-Library.Log_Nat"
begin

section \<open>JavaScript numbers\<close>

text \<open>
  The pages compute with JavaScript numbers, the IEEE 754 doubles: a finite value other
  than \<open>-0\<close> (a rational), \<open>-0\<close>, one of the two infinities, or NaN. An operation on finite
  numbers rounds its exact result to the nearest double, ties to the even significand;
  a result of magnitude \<open>2^1024\<close> or more after rounding is an infinity, and a result that
  rounds to zero keeps its sign. The special values follow IEEE 754: \<open>x / 0\<close> is an
  infinity or NaN, \<open>Infinity - Infinity\<close> and \<open>0 * Infinity\<close> are NaN, every comparison
  with NaN is false, \<open>-0\<close> compares equal to \<open>0\<close>.
\<close>

datatype jsnum = Num rat | NegZero | PInf | NInf | NaN

text \<open>The binary exponent of a positive number: \<open>2^(expo x) \<le> x < 2^(expo x + 1)\<close>.\<close>

definition expo :: "rat \<Rightarrow> int" where
  "expo x = (case quotient_of x of (a, b) \<Rightarrow>
       let e = bitlen a - bitlen b in if 2 powi e \<le> x then e else e - 1)"

text \<open>The nearest whole number, a tie going to the even one.\<close>

definition roundEven :: "rat \<Rightarrow> int" where
  "roundEven y = (let f = \<lfloor>y\<rfloor>; r = y - of_int f
     in if r < 1 / 2 then f else if 1 / 2 < r then f + 1 else if even f then f else f + 1)"

text \<open>
  The double nearest to a rational. The doubles around \<open>x\<close> are the multiples of
  \<open>2^(e - 52)\<close>, where \<open>e\<close> is the exponent of \<open>x\<close>, and \<open>-1022\<close> for the subnormal numbers.
\<close>

definition rnd :: "rat \<Rightarrow> jsnum" where
  "rnd x = (if x = 0 then Num 0 else
      (let q = 2 powi (max (expo \<bar>x\<bar>) (- 1022) - 52);
           m = of_int (roundEven (\<bar>x\<bar> / q)) * q
       in if 2 powi 1024 \<le> m then (if 0 < x then PInf else NInf)
          else if m = 0 then (if 0 < x then Num 0 else NegZero)
          else Num (if 0 < x then m else - m)))"

text \<open>The smallest positive normal double, \<open>2^-1022\<close>.\<close>

definition minNormal :: rat where
  "minNormal = 2 powi (- 1022)"

fun jneg :: "jsnum \<Rightarrow> jsnum" where
  "jneg (Num a) = (if a = 0 then NegZero else Num (- a))"
| "jneg NegZero = Num 0"
| "jneg PInf = NInf"
| "jneg NInf = PInf"
| "jneg NaN = NaN"

text \<open>
  Addition: the exact sum, rounded. A sum below \<open>2^-1022\<close> in magnitude is kept as it
  is. The doubles of that size are the multiples of \<open>2^-1074\<close>, and so is the sum of two
  doubles, so that on doubles this is the rounded sum (\<open>jadd_Num_is_rounding\<close> below); for
  the rationals of the type that are not doubles it keeps a sum that is not zero from
  becoming zero. A sum that is exactly zero is \<open>0\<close>, and \<open>-0\<close> only for \<open>-0 + -0\<close>.
\<close>

fun jadd :: "jsnum \<Rightarrow> jsnum \<Rightarrow> jsnum" where
  "jadd NaN _ = NaN"
| "jadd _ NaN = NaN"
| "jadd PInf NInf = NaN"
| "jadd NInf PInf = NaN"
| "jadd PInf _ = PInf"
| "jadd _ PInf = PInf"
| "jadd NInf _ = NInf"
| "jadd _ NInf = NInf"
| "jadd NegZero y = y"
| "jadd x NegZero = x"
| jadd_Num: "jadd (Num a) (Num b) = (if \<bar>a + b\<bar> < minNormal then Num (a + b) else rnd (a + b))"

definition jsub :: "jsnum \<Rightarrow> jsnum \<Rightarrow> jsnum" where
  "jsub x y = jadd x (jneg y)"

text \<open>The sign bit, the zeros, the infinities, and the value of a finite number.\<close>

fun negative :: "jsnum \<Rightarrow> bool" where
  "negative (Num a) = (a < 0)"
| "negative NegZero = True"
| "negative PInf = False"
| "negative NInf = True"
| "negative NaN = False"

definition isZero :: "jsnum \<Rightarrow> bool" where
  "isZero x = (x = Num 0 \<or> x = NegZero)"

definition isInf :: "jsnum \<Rightarrow> bool" where
  "isInf x = (x = PInf \<or> x = NInf)"

fun numval :: "jsnum \<Rightarrow> rat" where
  "numval (Num a) = a"
| "numval _ = 0"

definition jmul :: "jsnum \<Rightarrow> jsnum \<Rightarrow> jsnum" where
  "jmul x y =
     (if x = NaN \<or> y = NaN then NaN
      else if isInf x \<or> isInf y
      then (if isZero x \<or> isZero y then NaN
            else if negative x = negative y then PInf else NInf)
      else if isZero x \<or> isZero y
      then (if negative x = negative y then Num 0 else NegZero)
      else rnd (numval x * numval y))"

definition jdiv :: "jsnum \<Rightarrow> jsnum \<Rightarrow> jsnum" where
  "jdiv x y =
     (if x = NaN \<or> y = NaN then NaN
      else if isInf x
      then (if isInf y then NaN else if negative x = negative y then PInf else NInf)
      else if isInf y
      then (if negative x = negative y then Num 0 else NegZero)
      else if isZero y
      then (if isZero x then NaN else if negative x = negative y then PInf else NInf)
      else if isZero x
      then (if negative x = negative y then Num 0 else NegZero)
      else rnd (numval x / numval y))"

fun jlt :: "jsnum \<Rightarrow> jsnum \<Rightarrow> bool" where
  "jlt NaN _ = False"
| "jlt _ NaN = False"
| "jlt _ NInf = False"
| "jlt NInf _ = True"
| "jlt PInf _ = False"
| "jlt _ PInf = True"
| "jlt x y = (numval x < numval y)"

fun jle :: "jsnum \<Rightarrow> jsnum \<Rightarrow> bool" where
  "jle NaN _ = False"
| "jle _ NaN = False"
| "jle NInf _ = True"
| "jle _ PInf = True"
| "jle PInf _ = False"
| "jle _ NInf = False"
| "jle x y = (numval x \<le> numval y)"

definition jgt :: "jsnum \<Rightarrow> jsnum \<Rightarrow> bool" where
  "jgt x y = jlt y x"

definition jge :: "jsnum \<Rightarrow> jsnum \<Rightarrow> bool" where
  "jge x y = jle y x"

text \<open>\<open>Math.min(x, y)\<close>, for which \<open>-0\<close> is below \<open>0\<close>, and \<open>Math.abs(x)\<close>.\<close>

definition jmin :: "jsnum \<Rightarrow> jsnum \<Rightarrow> jsnum" where
  "jmin x y = (if x = NaN \<or> y = NaN then NaN
               else if jlt x y then x else if jlt y x then y
               else if y = NegZero then y else x)"

fun jabs :: "jsnum \<Rightarrow> jsnum" where
  "jabs (Num a) = Num \<bar>a\<bar>"
| "jabs NegZero = Num 0"
| "jabs PInf = PInf"
| "jabs NInf = PInf"
| "jabs NaN = NaN"

text \<open>Truthiness of a number: \<open>0\<close>, \<open>-0\<close> and NaN are falsy.\<close>

definition truthy :: "jsnum \<Rightarrow> bool" where
  "truthy x = (x \<noteq> Num 0 \<and> x \<noteq> NegZero \<and> x \<noteq> NaN)"

text \<open>\<open>xs.reduce((sum, x) => sum + x, 0)\<close>.\<close>

definition jsum :: "jsnum list \<Rightarrow> jsnum" where
  "jsum xs = foldl jadd (Num 0) xs"

definition finite_num :: "jsnum \<Rightarrow> bool" where
  "finite_num x = (case x of Num _ \<Rightarrow> True | NegZero \<Rightarrow> True | _ \<Rightarrow> False)"

lemma minNormal_pos [simp]: "0 < minNormal"
  by (simp add: minNormal_def)

lemma jadd_same [simp]: "jadd (Num a) (Num (- a)) = Num 0"
  by simp

declare jadd_Num [simp del]

lemma jmul_NaN [simp]: "jmul x NaN = NaN" "jmul NaN y = NaN"
  by (simp_all add: jmul_def)

lemma jdiv_NaN [simp]: "jdiv x NaN = NaN" "jdiv NaN y = NaN"
  by (simp_all add: jdiv_def)

section \<open>Reading a number from a field\<close>

text \<open>
  \<open>parseFloat(field)\<close>. A field that is missing (\<open>undefined\<close> or \<open>null\<close>) is read as NaN.
  Otherwise leading white space is dropped and the longest prefix that is a decimal
  literal is read: a sign, then \<open>Infinity\<close> or digits with an optional fraction and an
  optional exponent. What follows the literal is ignored; with no literal at the start
  the result is NaN. The value is rounded to the nearest double, and a zero after a minus
  sign is \<open>-0\<close>. White space is the ASCII white space and the no-break space.
\<close>

definition isDigit :: "char \<Rightarrow> bool" where
  "isDigit c = (c \<in> set ''0123456789'')"

definition isSpace :: "char \<Rightarrow> bool" where
  "isSpace c = (c \<in> set [CHR 0x09, CHR 0x0A, CHR 0x0B, CHR 0x0C, CHR 0x0D, CHR 0x20, CHR 0xA0])"

definition digitsVal :: "string \<Rightarrow> nat" where
  "digitsVal ds = foldl (\<lambda>n c. 10 * n + (of_char c - 48)) 0 ds"

text \<open>The exponent part at the front of a string, 0 when there is none.\<close>

definition exponentOf :: "string \<Rightarrow> int" where
  "exponentOf r =
     (if take 1 r = ''e'' \<or> take 1 r = ''E'' then
        (let r' = drop 1 r;
             ds = takeWhile isDigit (if take 1 r' = ''-'' \<or> take 1 r' = ''+'' then drop 1 r' else r')
         in if ds = [] then 0
            else if take 1 r' = ''-'' then - int (digitsVal ds) else int (digitsVal ds))
      else 0)"

fun parseFloat :: "string option \<Rightarrow> jsnum" where
  "parseFloat None = NaN"
| "parseFloat (Some s) =
     (let t = dropWhile isSpace s;
          neg = (take 1 t = ''-'');
          u = (if take 1 t = ''-'' \<or> take 1 t = ''+'' then drop 1 t else t)
      in if take 8 u = ''Infinity'' then (if neg then NInf else PInf)
         else
           (let ip = takeWhile isDigit u;
                r = dropWhile isDigit u;
                fp = (if take 1 r = ''.'' then takeWhile isDigit (drop 1 r) else []);
                r' = (if take 1 r = ''.'' then dropWhile isDigit (drop 1 r) else r)
            in if ip = [] \<and> fp = [] then NaN
               else
                 (let m = of_nat (digitsVal (ip @ fp)) * 10 powi (exponentOf r' - int (length fp))
                  in if m = 0 then (if neg then NegZero else Num 0)
                     else rnd (if neg then - m else m))))"

section \<open>Data\<close>

text \<open>
  An order as the brokerage returns it. The quantity and the price are strings, or
  missing.
\<close>

record apiOrder =
  symbol :: string
  side :: string
  status :: string
  filled_qty :: "string option"
  filled_avg_price :: "string option"
  filled_at :: int

text \<open>
  An order as the matchers use it: \<open>filled_qty\<close> and \<open>filled_avg_price\<close> hold what
  \<open>parseFloat\<close> returns for the field, which the matchers compute at the top of the body
  of \<open>sorted.forEach\<close> and nowhere else read the field. \<open>filled_at\<close> holds the instant
  \<open>new Date(order.filled_at)\<close> denotes, in milliseconds; an unparsable date is outside
  the model.
\<close>

record order =
  symbol :: string
  side :: string
  status :: string
  filled_qty :: jsnum
  filled_avg_price :: jsnum
  filled_at :: int

definition parseOrder :: "apiOrder \<Rightarrow> order" where
  "parseOrder raw =
     \<lparr> order.symbol = apiOrder.symbol raw, side = apiOrder.side raw,
       status = apiOrder.status raw,
       filled_qty = parseFloat (apiOrder.filled_qty raw),
       filled_avg_price = parseFloat (apiOrder.filled_avg_price raw),
       filled_at = apiOrder.filled_at raw \<rparr>"

text \<open>
  An open buy lot in the FIFO queue: \<open>{ qty, price, date }\<close>. The Trade History page
  also keeps the order in the lot and never reads it.
\<close>

record lot =
  qty :: jsnum
  price :: jsnum
  date :: int

text \<open>
  A round trip. The Trade History page builds the eight fields of \<open>trade\<close>; the Analytics
  page adds \<open>cost\<close> and \<open>revenue\<close>.
\<close>

record trade =
  symbol :: string
  buyPrice :: jsnum
  sellPrice :: jsnum
  qty :: jsnum
  pl :: jsnum
  plPercent :: jsnum
  buyDate :: int
  sellDate :: int

record roundTrip = trade +
  cost :: jsnum
  revenue :: jsnum

section \<open>Grouping the filled orders by symbol\<close>

text \<open>
  \<open>ordersBySymbol\<close> is an object used as a dictionary; \<open>Object.entries\<close> lists its keys
  in insertion order (ticker symbols are not array indices), so it is an association
  list in order of first appearance.
\<close>

fun pushOrder :: "order \<Rightarrow> (string \<times> order list) list \<Rightarrow> (string \<times> order list) list" where
  "pushOrder ord [] = [(order.symbol ord, [ord])]"
| "pushOrder ord ((s, os) # m) =
     (if s = order.symbol ord then (s, os @ [ord]) # m else (s, os) # pushOrder ord m)"

definition ordersBySymbol :: "order list \<Rightarrow> (string \<times> order list) list" where
  "ordersBySymbol orders =
     foldl (\<lambda>m ord. pushOrder ord m) [] (filter (\<lambda>ord. order.status ord = ''filled'') orders)"

section \<open>The Analytics matcher\<close>

text \<open>The round trip pushed by one iteration of the inner loop of \<open>roundTrips\<close>.\<close>

definition mkRoundTrip :: "string \<Rightarrow> jsnum \<Rightarrow> int \<Rightarrow> lot \<Rightarrow> jsnum \<Rightarrow> roundTrip" where
  "mkRoundTrip symb sprice sdate buy matchQty =
     \<lparr> trade.symbol = symb,
       buyPrice = lot.price buy,
       sellPrice = sprice,
       qty = matchQty,
       pl = jmul (jsub sprice (lot.price buy)) matchQty,
       plPercent = jmul (jdiv (jsub sprice (lot.price buy)) (lot.price buy)) (Num 100),
       buyDate = lot.date buy,
       sellDate = sdate,
       cost = jmul (lot.price buy) matchQty,
       revenue = jmul sprice matchQty \<rparr>"

text \<open>
  The measure of the inner \<open>while\<close> loop: an iteration removes the head lot, or leaves a
  sell quantity that is no longer positive, or (head quantity \<open>-Infinity\<close>) turns the head
  quantity into NaN, after which the next iteration ends the loop.
\<close>

definition loopMeasure :: "jsnum \<Rightarrow> lot list \<Rightarrow> nat" where
  "loopMeasure sellQty buyQueue =
     (case buyQueue of [] \<Rightarrow> 0
      | buy # rest \<Rightarrow>
          if jgt sellQty (Num 0)
          then 3 * length buyQueue + (if lot.qty buy = NaN then 1 else 2)
          else 0)"

function matchLoop ::
  "string \<Rightarrow> jsnum \<Rightarrow> int \<Rightarrow> jsnum \<Rightarrow> lot list \<Rightarrow> roundTrip list \<Rightarrow> lot list \<times> roundTrip list" where
  "matchLoop symb sprice sdate sellQty [] allRoundTrips = ([], allRoundTrips)"
| "matchLoop symb sprice sdate sellQty (buy # rest) allRoundTrips =
     (if jgt sellQty (Num 0) then
        (let matchQty = jmin sellQty (lot.qty buy);
             allRoundTrips' = allRoundTrips @ [mkRoundTrip symb sprice sdate buy matchQty];
             buy' = buy\<lparr>lot.qty := jsub (lot.qty buy) matchQty\<rparr>;
             sellQty' = jsub sellQty matchQty
         in matchLoop symb sprice sdate sellQty'
              (if jle (lot.qty buy') (Num 0) then rest else buy' # rest) allRoundTrips')
      else (buy # rest, allRoundTrips))"
  by pat_completeness auto

lemma jle_jsub_jmin_cases:
  assumes "jgt sellQty (Num 0)"
  shows "jle (jsub q (jmin sellQty q)) (Num 0)
         \<or> \<not> jgt (jsub sellQty (jmin sellQty q)) (Num 0)
         \<or> (q \<noteq> NaN \<and> jsub q (jmin sellQty q) = NaN)"
  using assms
  by (cases sellQty; cases q) (auto simp: jgt_def jsub_def jmin_def)

lemma loopMeasure_decreases:
  assumes "jgt sellQty (Num 0)"
  shows "loopMeasure (jsub sellQty (jmin sellQty (lot.qty buy)))
           (if jle (jsub (lot.qty buy) (jmin sellQty (lot.qty buy))) (Num 0) then rest
            else buy\<lparr>lot.qty := jsub (lot.qty buy) (jmin sellQty (lot.qty buy))\<rparr> # rest)
         < loopMeasure sellQty (buy # rest)"
  using jle_jsub_jmin_cases [OF assms, of "lot.qty buy"] assms
  by (cases rest) (auto simp: loopMeasure_def)

termination matchLoop
  by (relation "measure (\<lambda>(symb, sprice, sdate, sellQty, buyQueue, acc). loopMeasure sellQty buyQueue)")
     (auto split del: if_split simp: loopMeasure_decreases)

declare matchLoop.simps [simp del]


text \<open>
  The body of \<open>sorted.forEach\<close>: a buy is pushed on the queue, a sell meeting a non-empty
  queue runs the inner loop, anything else changes nothing.
\<close>

fun processOrder :: "string \<Rightarrow> lot list \<times> roundTrip list \<Rightarrow> order \<Rightarrow> lot list \<times> roundTrip list" where
  "processOrder symb (buyQueue, allRoundTrips) ord =
     (let q = filled_qty ord; p = filled_avg_price ord in
      if side ord = ''buy''
      then (buyQueue @ [\<lparr> lot.qty = q, price = p, date = filled_at ord \<rparr>], allRoundTrips)
      else if side ord = ''sell'' \<and> buyQueue \<noteq> []
      then matchLoop symb p (filled_at ord) q buyQueue allRoundTrips
      else (buyQueue, allRoundTrips))"

text \<open>
  One entry of \<open>Object.entries(ordersBySymbol)\<close>: the symbol's orders are sorted by fill
  time (\<open>Array.prototype.sort\<close> is stable) and processed against a fresh queue. The
  result keeps the final queue beside the round trips; the page drops it.
\<close>

definition matchSymbol :: "roundTrip list \<Rightarrow> string \<times> order list \<Rightarrow> lot list \<times> roundTrip list" where
  "matchSymbol allRoundTrips entry =
     (case entry of (symb, symbolOrders) \<Rightarrow>
        foldl (processOrder symb) ([], allRoundTrips) (sort_key filled_at symbolOrders))"

definition allRoundTrips :: "order list \<Rightarrow> roundTrip list" where
  "allRoundTrips orders =
     foldl (\<lambda>acc entry. snd (matchSymbol acc entry)) [] (ordersBySymbol orders)"

text \<open>\<open>roundTrips\<close> of the Analytics page; \<open>None\<close> is \<open>orders\<close> not loaded yet.\<close>

fun roundTrips :: "order list option \<Rightarrow> roundTrip list" where
  "roundTrips None = []"
| "roundTrips (Some orders) = sort_key sellDate (allRoundTrips orders)"

text \<open>The queue of open lots each symbol's pass ends with.\<close>

definition openLots :: "order list \<Rightarrow> (string \<times> lot list) list" where
  "openLots orders = map (\<lambda>entry. (fst entry, fst (matchSymbol [] entry))) (ordersBySymbol orders)"

section \<open>The Trade History matcher\<close>

text \<open>
  The Trade History page runs the same matching; its round trips have no \<open>cost\<close> and
  \<open>revenue\<close>, it counts wins and losses and sums the realized P/L of each symbol, and it
  returns the round trips in the order they were pushed, without a final sort.
\<close>

record symbolStat =
  realizedPL :: jsnum
  trades :: nat
  winCount :: nat
  lossCount :: nat
  winRate :: jsnum

definition mkTrade :: "string \<Rightarrow> jsnum \<Rightarrow> int \<Rightarrow> lot \<Rightarrow> jsnum \<Rightarrow> trade" where
  "mkTrade symb sprice sdate buy matchQty =
     \<lparr> trade.symbol = symb,
       buyPrice = lot.price buy,
       sellPrice = sprice,
       qty = matchQty,
       pl = jmul (jsub sprice (lot.price buy)) matchQty,
       plPercent = jmul (jdiv (jsub sprice (lot.price buy)) (lot.price buy)) (Num 100),
       buyDate = lot.date buy,
       sellDate = sdate \<rparr>"

text \<open>The loop state beside the queue: \<open>allRoundTrips\<close>, \<open>realizedPL\<close>, \<open>winCount\<close>, \<open>lossCount\<close>.\<close>

type_synonym tally = "trade list \<times> jsnum \<times> nat \<times> nat"

function matchLoopT ::
  "string \<Rightarrow> jsnum \<Rightarrow> int \<Rightarrow> jsnum \<Rightarrow> lot list \<Rightarrow> tally \<Rightarrow> lot list \<times> tally" where
  "matchLoopT symb sprice sdate sellQty [] tly = ([], tly)"
| "matchLoopT symb sprice sdate sellQty (buy # rest) (trips, rpl, wins, losses) =
     (if jgt sellQty (Num 0) then
        (let matchQty = jmin sellQty (lot.qty buy);
             p = jmul (jsub sprice (lot.price buy)) matchQty;
             rpl' = jadd rpl p;
             wins' = (if jge p (Num 0) then wins + 1 else wins);
             losses' = (if jge p (Num 0) then losses else losses + 1);
             trips' = trips @ [mkTrade symb sprice sdate buy matchQty];
             buy' = buy\<lparr>lot.qty := jsub (lot.qty buy) matchQty\<rparr>;
             sellQty' = jsub sellQty matchQty
         in matchLoopT symb sprice sdate sellQty'
              (if jle (lot.qty buy') (Num 0) then rest else buy' # rest)
              (trips', rpl', wins', losses'))
      else (buy # rest, trips, rpl, wins, losses))"
  by pat_completeness auto

termination matchLoopT
  by (relation "measure (\<lambda>(symb, sprice, sdate, sellQty, buyQueue, acc). loopMeasure sellQty buyQueue)")
     (auto split del: if_split simp: loopMeasure_decreases)

declare matchLoopT.simps [simp del]

fun processOrderT :: "string \<Rightarrow> lot list \<times> tally \<Rightarrow> order \<Rightarrow> lot list \<times> tally" where
  "processOrderT symb (buyQueue, tly) ord =
     (let q = filled_qty ord; p = filled_avg_price ord in
      if side ord = ''buy''
      then (buyQueue @ [\<lparr> lot.qty = q, price = p, date = filled_at ord \<rparr>], tly)
      else if side ord = ''sell'' \<and> buyQueue \<noteq> []
      then matchLoopT symb p (filled_at ord) q buyQueue tly
      else (buyQueue, tly))"

text \<open>
  One symbol of the Trade History pass: the counters start at zero, the round trips are
  appended to the shared list, and \<open>stats[symbol]\<close> is written at the end.
\<close>

definition mkStat :: "jsnum \<Rightarrow> nat \<Rightarrow> nat \<Rightarrow> symbolStat" where
  "mkStat rpl wins losses =
     \<lparr> realizedPL = rpl,
       trades = wins + losses,
       winCount = wins,
       lossCount = losses,
       winRate = (if wins + losses > 0
                  then jmul (jdiv (Num (of_nat wins)) (Num (of_nat (wins + losses)))) (Num 100)
                  else Num 0) \<rparr>"

definition matchSymbolT ::
  "trade list \<times> (string \<times> symbolStat) list \<Rightarrow> string \<times> order list
   \<Rightarrow> trade list \<times> (string \<times> symbolStat) list" where
  "matchSymbolT acc entry =
     (case (acc, entry) of ((trips, stats), (symb, symbolOrders)) \<Rightarrow>
        (case foldl (processOrderT symb) ([], trips, Num 0, 0, 0) (sort_key filled_at symbolOrders)
         of (buyQueue, trips', rpl, wins, losses) \<Rightarrow>
              (trips', AList.update symb (mkStat rpl wins losses) stats)))"

text \<open>The pair \<open>{ roundTrips, symbolStats }\<close> of the Trade History page.\<close>

fun tradeHistory :: "order list option \<Rightarrow> trade list \<times> (string \<times> symbolStat) list" where
  "tradeHistory None = ([], [])"
| "tradeHistory (Some orders) = foldl matchSymbolT ([], []) (ordersBySymbol orders)"


section \<open>Performance metrics\<close>

text \<open>
  \<open>Array.prototype.sort\<close> with a comparator: the sort is stable, and a comparator result
  that is not positive (NaN included) leaves the earlier element first. Where the
  comparator is not a consistent order the result depends on the engine; this is
  insertion from the right.
\<close>

fun insertBy :: "('a \<Rightarrow> 'a \<Rightarrow> jsnum) \<Rightarrow> 'a \<Rightarrow> 'a list \<Rightarrow> 'a list" where
  "insertBy cmp x [] = [x]"
| "insertBy cmp x (y # ys) =
     (if jgt (cmp x y) (Num 0) then y # insertBy cmp x ys else x # y # ys)"

definition sortBy :: "('a \<Rightarrow> 'a \<Rightarrow> jsnum) \<Rightarrow> 'a list \<Rightarrow> 'a list" where
  "sortBy cmp xs = foldr (insertBy cmp) xs []"

record metrics =
  totalTrades :: nat
  winners :: nat
  losers :: nat
  winRate :: jsnum
  totalPL :: jsnum
  avgWin :: jsnum
  avgLoss :: jsnum
  avgWinPercent :: jsnum
  avgLossPercent :: jsnum
  profitFactor :: jsnum
  largestWin :: "roundTrip option"
  largestLoss :: "roundTrip option"
  expectancy :: jsnum

text \<open>\<open>xs.length\<close> as a number.\<close>

definition len :: "'a list \<Rightarrow> jsnum" where
  "len xs = Num (of_nat (length xs))"

text \<open>\<open>metrics\<close> of the Analytics page, a function of its \<open>roundTrips\<close>.\<close>

definition metrics :: "roundTrip list \<Rightarrow> metrics" where
  "metrics trips =
     (if length trips = 0 then
        \<lparr> totalTrades = 0, winners = 0, losers = 0, winRate = Num 0, totalPL = Num 0,
          avgWin = Num 0, avgLoss = Num 0, avgWinPercent = Num 0, avgLossPercent = Num 0,
          profitFactor = Num 0, largestWin = None, largestLoss = None, expectancy = Num 0 \<rparr>
      else
        (let winnersL = filter (\<lambda>rt. jge (trade.pl rt) (Num 0)) trips;
             losersL = filter (\<lambda>rt. jlt (trade.pl rt) (Num 0)) trips;
             totalWins = jsum (map trade.pl winnersL);
             totalLosses = jabs (jsum (map trade.pl losersL));
             avgWinV = (if length winnersL > 0 then jdiv totalWins (len winnersL) else Num 0);
             avgLossV = (if length losersL > 0 then jdiv totalLosses (len losersL) else Num 0);
             avgWinPercentV =
               (if length winnersL > 0
                then jdiv (jsum (map trade.plPercent winnersL)) (len winnersL) else Num 0);
             avgLossPercentV =
               (if length losersL > 0
                then jabs (jdiv (jsum (map trade.plPercent losersL)) (len losersL)) else Num 0);
             sortedByPL = sortBy (\<lambda>a b. jsub (trade.pl b) (trade.pl a)) trips;
             largestWinV = (case sortedByPL of [] \<Rightarrow> None | x # _ \<Rightarrow> Some x);
             largestLossV = (case sortedByPL of [] \<Rightarrow> None | _ # _ \<Rightarrow> Some (last sortedByPL));
             winRateV =
               (if length trips > 0 then jmul (jdiv (len winnersL) (len trips)) (Num 100)
                else Num 0);
             profitFactorV =
               (if jgt totalLosses (Num 0) then jdiv totalWins totalLosses
                else if jgt totalWins (Num 0) then PInf else Num 0);
             expectancyV =
               (if length trips > 0
                then jsub (jmul (jdiv winRateV (Num 100)) avgWinV)
                          (jmul (jdiv (jsub (Num 100) winRateV) (Num 100)) avgLossV)
                else Num 0)
         in \<lparr> totalTrades = length trips,
              winners = length winnersL,
              losers = length losersL,
              winRate = winRateV,
              totalPL = jsum (map trade.pl trips),
              avgWin = avgWinV,
              avgLoss = avgLossV,
              avgWinPercent = avgWinPercentV,
              avgLossPercent = avgLossPercentV,
              profitFactor = profitFactorV,
              largestWin = largestWinV,
              largestLoss = largestLossV,
              expectancy = expectancyV \<rparr>))"

section \<open>Daily and cumulative profit and loss\<close>

text \<open>
  The key \<open>format(parseISO(rt.sellDate), 'yyyy-MM-dd')\<close> names a calendar day. It is
  modelled by the number of that day, with the viewer's time zone taken as UTC; sorting
  the key strings sorts the days, and \<open>eachDayOfInterval\<close> lists the days from the first
  to the last. The chart label \<open>format(date, 'MMM d')\<close> is replaced by the day number.
\<close>

definition dateKey :: "int \<Rightarrow> int" where
  "dateKey t = t div 86400000"

text \<open>\<open>dailyMap.get(dateKey) || 0\<close> on the \<open>Map\<close>, an association list in insertion order.\<close>

definition getOr0 :: "(int \<times> jsnum) list \<Rightarrow> int \<Rightarrow> jsnum" where
  "getOr0 m k = (case map_of m k of None \<Rightarrow> Num 0 | Some v \<Rightarrow> if truthy v then v else Num 0)"

definition addTrip :: "(int \<times> jsnum) list \<Rightarrow> roundTrip \<Rightarrow> (int \<times> jsnum) list" where
  "addTrip m rt =
     (let k = dateKey (sellDate rt); current = getOr0 m k
      in AList.update k (jadd current (trade.pl rt)) m)"

definition dailyMap :: "roundTrip list \<Rightarrow> (int \<times> jsnum) list" where
  "dailyMap trips = foldl addTrip [] trips"

record dayPL =
  date :: int
  pl :: jsnum

definition dailyPL :: "roundTrip list \<Rightarrow> dayPL list" where
  "dailyPL trips =
     (if length trips = 0 then []
      else
        (let m = dailyMap trips; dates = sort (map fst m) in
         if length dates = 0 then []
         else map (\<lambda>d. \<lparr> dayPL.date = d, pl = getOr0 m d \<rparr>) [hd dates .. last dates]))"

record dayTotal =
  date :: int
  cumulative :: jsnum

fun runningTotals :: "jsnum \<Rightarrow> dayPL list \<Rightarrow> dayTotal list" where
  "runningTotals c [] = []"
| "runningTotals c (day # days) =
     (let c' = jadd c (dayPL.pl day)
      in \<lparr> dayTotal.date = dayPL.date day, cumulative = c' \<rparr> # runningTotals c' days)"

definition cumulativePL :: "dayPL list \<Rightarrow> dayTotal list" where
  "cumulativePL daily = (if length daily = 0 then [] else runningTotals (Num 0) daily)"


section \<open>The matching loop without its accumulators\<close>

text \<open>
  Both inner loops move the queue in the same way and differ in what they record. \<open>fifo\<close>
  is that common loop: it returns the queue left and the matches made, each a lot (as it
  stood when matched) with the matched quantity.
\<close>

function fifo :: "jsnum \<Rightarrow> lot list \<Rightarrow> lot list \<times> (lot \<times> jsnum) list" where
  "fifo sellQty [] = ([], [])"
| "fifo sellQty (buy # rest) =
     (if jgt sellQty (Num 0) then
        (let matchQty = jmin sellQty (lot.qty buy);
             buy' = buy\<lparr>lot.qty := jsub (lot.qty buy) matchQty\<rparr>;
             r = fifo (jsub sellQty matchQty)
                   (if jle (lot.qty buy') (Num 0) then rest else buy' # rest)
         in (fst r, (buy, matchQty) # snd r))
      else (buy # rest, []))"
  by pat_completeness auto

termination fifo
  by (relation "measure (\<lambda>(sellQty, buyQueue). loopMeasure sellQty buyQueue)")
     (auto split del: if_split simp: loopMeasure_decreases)

declare fifo.simps(2) [simp del]

text \<open>The queue after one iteration on the head lot \<open>buy\<close>.\<close>

definition afterMatch :: "jsnum \<Rightarrow> lot \<Rightarrow> lot list \<Rightarrow> lot list" where
  "afterMatch sellQty buy rest =
     (if jle (jsub (lot.qty buy) (jmin sellQty (lot.qty buy))) (Num 0) then rest
      else buy\<lparr>lot.qty := jsub (lot.qty buy) (jmin sellQty (lot.qty buy))\<rparr> # rest)"

lemma fifo_step:
  "jgt sellQty (Num 0) \<Longrightarrow>
   fifo sellQty (buy # rest) =
     (fst (fifo (jsub sellQty (jmin sellQty (lot.qty buy))) (afterMatch sellQty buy rest)),
      (buy, jmin sellQty (lot.qty buy))
        # snd (fifo (jsub sellQty (jmin sellQty (lot.qty buy))) (afterMatch sellQty buy rest)))"
  by (subst fifo.simps(2)) (simp add: Let_def afterMatch_def)

lemma fifo_stop: "\<not> jgt sellQty (Num 0) \<Longrightarrow> fifo sellQty buyQueue = (buyQueue, [])"
  by (cases buyQueue) (simp_all add: fifo.simps(2))

lemma matchLoop_step:
  "jgt sellQty (Num 0) \<Longrightarrow>
   matchLoop symb sprice sdate sellQty (buy # rest) acc =
     matchLoop symb sprice sdate (jsub sellQty (jmin sellQty (lot.qty buy)))
       (afterMatch sellQty buy rest)
       (acc @ [mkRoundTrip symb sprice sdate buy (jmin sellQty (lot.qty buy))])"
  by (subst matchLoop.simps(2)) (simp add: Let_def afterMatch_def)

lemma matchLoop_stop:
  "\<not> jgt sellQty (Num 0) \<Longrightarrow> matchLoop symb sprice sdate sellQty buyQueue acc = (buyQueue, acc)"
  by (cases buyQueue) (simp_all add: matchLoop.simps)

text \<open>The round trips the Analytics loop pushes for a list of matches.\<close>

definition tripsOfMatches :: "string \<Rightarrow> jsnum \<Rightarrow> int \<Rightarrow> (lot \<times> jsnum) list \<Rightarrow> roundTrip list" where
  "tripsOfMatches symb sprice sdate ms = map (\<lambda>(buy, m). mkRoundTrip symb sprice sdate buy m) ms"

lemma matchLoop_fifo:
  "matchLoop symb sprice sdate sellQty buyQueue acc =
     (fst (fifo sellQty buyQueue),
      acc @ tripsOfMatches symb sprice sdate (snd (fifo sellQty buyQueue)))"
proof (induction sellQty buyQueue arbitrary: acc rule: fifo.induct)
  case (1 sellQty)
  then show ?case by (simp add: matchLoop.simps tripsOfMatches_def)
next
  case (2 sellQty buy rest)
  show ?case
  proof (cases "jgt sellQty (Num 0)")
    case True
    have "matchLoop symb sprice sdate (jsub sellQty (jmin sellQty (lot.qty buy)))
            (afterMatch sellQty buy rest) acc' =
          (fst (fifo (jsub sellQty (jmin sellQty (lot.qty buy))) (afterMatch sellQty buy rest)),
           acc' @ tripsOfMatches symb sprice sdate
             (snd (fifo (jsub sellQty (jmin sellQty (lot.qty buy))) (afterMatch sellQty buy rest))))"
      for acc'
      using "2.IH" [OF True refl refl, of acc'] by (simp add: afterMatch_def)
    then show ?thesis
      by (simp add: matchLoop_step [OF True] fifo_step [OF True] tripsOfMatches_def)
  next
    case False
    then show ?thesis by (simp add: matchLoop_stop fifo_stop tripsOfMatches_def)
  qed
qed

text \<open>The tally of the Trade History loop as a function of the round trips pushed.\<close>

fun tallyOf :: "tally \<Rightarrow> roundTrip list \<Rightarrow> tally" where
  "tallyOf (trips, rpl, wins, losses) ts =
     (trips @ map trade.truncate ts,
      foldl jadd rpl (map trade.pl ts),
      wins + length (filter (\<lambda>rt. jge (trade.pl rt) (Num 0)) ts),
      losses + length (filter (\<lambda>rt. \<not> jge (trade.pl rt) (Num 0)) ts))"

lemma tallyOf_append: "tallyOf (tallyOf tly xs) ys = tallyOf tly (xs @ ys)"
  by (cases tly) simp

lemma tallyOf_Nil [simp]: "tallyOf tly [] = tly"
  by (cases tly) simp

lemma matchLoopT_step:
  "jgt sellQty (Num 0) \<Longrightarrow>
   matchLoopT symb sprice sdate sellQty (buy # rest) tly =
     matchLoopT symb sprice sdate (jsub sellQty (jmin sellQty (lot.qty buy)))
       (afterMatch sellQty buy rest)
       (tallyOf tly [mkRoundTrip symb sprice sdate buy (jmin sellQty (lot.qty buy))])"
proof -
  assume pos: "jgt sellQty (Num 0)"
  obtain trips rpl wins losses where t: "tly = (trips, rpl, wins, losses)"
    by (cases tly) auto
  show ?thesis
    unfolding t
    by (subst matchLoopT.simps(2))
       (simp add: pos Let_def afterMatch_def mkRoundTrip_def mkTrade_def trade.truncate_def)
qed

lemma matchLoopT_stop:
  "\<not> jgt sellQty (Num 0) \<Longrightarrow> matchLoopT symb sprice sdate sellQty buyQueue tly = (buyQueue, tly)"
  by (cases buyQueue; cases tly) (simp_all add: matchLoopT.simps)

lemma matchLoopT_fifo:
  "matchLoopT symb sprice sdate sellQty buyQueue tly =
     (fst (fifo sellQty buyQueue),
      tallyOf tly (tripsOfMatches symb sprice sdate (snd (fifo sellQty buyQueue))))"
proof (induction sellQty buyQueue arbitrary: tly rule: fifo.induct)
  case (1 sellQty)
  then show ?case by (simp add: matchLoopT.simps tripsOfMatches_def)
next
  case (2 sellQty buy rest)
  show ?case
  proof (cases "jgt sellQty (Num 0)")
    case True
    have "matchLoopT symb sprice sdate (jsub sellQty (jmin sellQty (lot.qty buy)))
            (afterMatch sellQty buy rest) tly' =
          (fst (fifo (jsub sellQty (jmin sellQty (lot.qty buy))) (afterMatch sellQty buy rest)),
           tallyOf tly' (tripsOfMatches symb sprice sdate
             (snd (fifo (jsub sellQty (jmin sellQty (lot.qty buy))) (afterMatch sellQty buy rest)))))"
      for tly'
      using "2.IH" [OF True refl refl, of tly'] by (simp add: afterMatch_def)
    then show ?thesis
      unfolding matchLoopT_step [OF True] fifo_step [OF True]
      by (simp add: tallyOf_append tripsOfMatches_def del: tallyOf.simps)
  next
    case False
    then show ?thesis by (simp add: matchLoopT_stop fifo_stop tripsOfMatches_def)
  qed
qed

section \<open>One symbol's pass as a function of its orders\<close>

text \<open>What one order does to the queue, and the matches it makes.\<close>

definition queueStep :: "lot list \<Rightarrow> order \<Rightarrow> lot list \<times> (lot \<times> jsnum) list" where
  "queueStep buyQueue ord =
     (if side ord = ''buy''
      then (buyQueue @ [\<lparr> lot.qty = filled_qty ord, price = filled_avg_price ord,
                          date = filled_at ord \<rparr>], [])
      else if side ord = ''sell'' \<and> buyQueue \<noteq> [] then fifo (filled_qty ord) buyQueue
      else (buyQueue, []))"

text \<open>The queue left and the round trips pushed by a list of orders, from a given queue.\<close>

fun run :: "string \<Rightarrow> lot list \<Rightarrow> order list \<Rightarrow> lot list \<times> roundTrip list" where
  "run symb buyQueue [] = (buyQueue, [])"
| "run symb buyQueue (ord # ords) =
     (let r = run symb (fst (queueStep buyQueue ord)) ords
      in (fst r,
          tripsOfMatches symb (filled_avg_price ord) (filled_at ord) (snd (queueStep buyQueue ord))
            @ snd r))"

lemma processOrder_queueStep:
  "processOrder symb (buyQueue, acc) ord =
     (fst (queueStep buyQueue ord),
      acc @ tripsOfMatches symb (filled_avg_price ord) (filled_at ord) (snd (queueStep buyQueue ord)))"
  by (simp add: queueStep_def matchLoop_fifo Let_def tripsOfMatches_def)

lemma processOrderT_queueStep:
  "processOrderT symb (buyQueue, tly) ord =
     (fst (queueStep buyQueue ord),
      tallyOf tly (tripsOfMatches symb (filled_avg_price ord) (filled_at ord)
                     (snd (queueStep buyQueue ord))))"
  by (simp add: queueStep_def matchLoopT_fifo Let_def tripsOfMatches_def del: tallyOf.simps)

lemma foldl_processOrder:
  "foldl (processOrder symb) (buyQueue, acc) ords =
     (fst (run symb buyQueue ords), acc @ snd (run symb buyQueue ords))"
  by (induction ords arbitrary: buyQueue acc)
     (simp_all add: processOrder_queueStep Let_def del: processOrder.simps)

lemma foldl_processOrderT:
  "foldl (processOrderT symb) (buyQueue, tly) ords =
     (fst (run symb buyQueue ords), tallyOf tly (snd (run symb buyQueue ords)))"
  by (induction ords arbitrary: buyQueue tly)
     (simp_all add: processOrderT_queueStep Let_def tallyOf_append
               del: tallyOf.simps processOrderT.simps)

lemma run_append:
  "run symb buyQueue (xs @ ys) =
     (fst (run symb (fst (run symb buyQueue xs)) ys),
      snd (run symb buyQueue xs) @ snd (run symb (fst (run symb buyQueue xs)) ys))"
  by (induction xs arbitrary: buyQueue) (simp_all add: Let_def)

text \<open>The round trips of one symbol, from its filled orders in arrival order.\<close>

definition symbolTrips :: "string \<Rightarrow> order list \<Rightarrow> roundTrip list" where
  "symbolTrips symb symbolOrders = snd (run symb [] (sort_key filled_at symbolOrders))"

text \<open>The statistics the Trade History page stores for a symbol with these round trips.\<close>

definition statOf :: "roundTrip list \<Rightarrow> symbolStat" where
  "statOf ts =
     mkStat (jsum (map trade.pl ts))
       (length (filter (\<lambda>rt. jge (trade.pl rt) (Num 0)) ts))
       (length (filter (\<lambda>rt. \<not> jge (trade.pl rt) (Num 0)) ts))"

lemma matchSymbol_symbolTrips:
  "snd (matchSymbol acc (symb, symbolOrders)) = acc @ symbolTrips symb symbolOrders"
  by (simp add: matchSymbol_def foldl_processOrder symbolTrips_def)

lemma matchSymbolT_symbolTrips:
  "matchSymbolT (trips, stats) (symb, symbolOrders) =
     (trips @ map trade.truncate (symbolTrips symb symbolOrders),
      AList.update symb (statOf (symbolTrips symb symbolOrders)) stats)"
  by (simp add: matchSymbolT_def foldl_processOrderT symbolTrips_def statOf_def jsum_def)

lemma foldl_matchSymbol:
  "foldl (\<lambda>acc entry. snd (matchSymbol acc entry)) acc entries =
     acc @ concat (map (\<lambda>(symb, symbolOrders). symbolTrips symb symbolOrders) entries)"
  by (induction entries arbitrary: acc) (auto simp: matchSymbol_symbolTrips)

lemma allRoundTrips_concat:
  "allRoundTrips orders =
     concat (map (\<lambda>(symb, symbolOrders). symbolTrips symb symbolOrders) (ordersBySymbol orders))"
  by (simp add: allRoundTrips_def foldl_matchSymbol)

lemma foldl_matchSymbolT:
  "foldl matchSymbolT (trips, stats) entries =
     (trips @ map trade.truncate
                (concat (map (\<lambda>(symb, symbolOrders). symbolTrips symb symbolOrders) entries)),
      foldl (\<lambda>st (symb, symbolOrders). AList.update symb (statOf (symbolTrips symb symbolOrders)) st)
        stats entries)"
  by (induction entries arbitrary: trips stats) (auto simp: matchSymbolT_symbolTrips)

lemma tradeHistory_trips:
  "fst (tradeHistory (Some orders)) = map trade.truncate (allRoundTrips orders)"
  by (simp add: foldl_matchSymbolT allRoundTrips_concat)

section \<open>The groups of \<open>ordersBySymbol\<close>\<close>

definition filledOrders :: "order list \<Rightarrow> order list" where
  "filledOrders orders = filter (\<lambda>ord. order.status ord = ''filled'') orders"

definition ordersOf :: "string \<Rightarrow> order list \<Rightarrow> order list" where
  "ordersOf symb orders = filter (\<lambda>ord. order.symbol ord = symb) (filledOrders orders)"

text \<open>The symbols of a list of orders, in order of first appearance.\<close>

definition firstSeen :: "order list \<Rightarrow> string list" where
  "firstSeen fs = rev (remdups (rev (map order.symbol fs)))"

lemma firstSeen_snoc:
  "firstSeen (fs @ [ord]) =
     (if order.symbol ord \<in> set (firstSeen fs) then firstSeen fs
      else firstSeen fs @ [order.symbol ord])"
  by (simp add: firstSeen_def)

lemma distinct_firstSeen [simp]: "distinct (firstSeen fs)"
  by (simp add: firstSeen_def)

lemma set_firstSeen [simp]: "set (firstSeen fs) = order.symbol ` set fs"
  by (simp add: firstSeen_def)

lemma pushOrder_map:
  assumes "distinct ks"
  shows "pushOrder ord (map (\<lambda>s. (s, g s)) ks) =
           (if order.symbol ord \<in> set ks
            then map (\<lambda>s. (s, if s = order.symbol ord then g s @ [ord] else g s)) ks
            else map (\<lambda>s. (s, g s)) ks @ [(order.symbol ord, [ord])])"
  using assms by (induction ks) auto

lemma grouped_eq:
  "foldl (\<lambda>m ord. pushOrder ord m) [] fs =
     map (\<lambda>s. (s, filter (\<lambda>x. order.symbol x = s) fs)) (firstSeen fs)"
proof (induction fs rule: rev_induct)
  case Nil
  then show ?case by (simp add: firstSeen_def)
next
  case (snoc ord fs)
  show ?case
  proof (cases "order.symbol ord \<in> set (firstSeen fs)")
    case True
    then show ?thesis
      using snoc pushOrder_map [OF distinct_firstSeen, of ord "\<lambda>s. filter (\<lambda>x. order.symbol x = s) fs" fs]
      by (simp add: firstSeen_snoc del: set_firstSeen)
  next
    case False
    then have "\<forall>x \<in> set fs. order.symbol x \<noteq> order.symbol ord"
      by (metis imageI set_firstSeen)
    then have "filter (\<lambda>x. order.symbol x = order.symbol ord) fs = []"
      by (simp add: filter_empty_conv)
    moreover have "map (\<lambda>s. (s, filter (\<lambda>x. order.symbol x = s) fs)) (firstSeen fs)
          = map (\<lambda>s. (s, filter (\<lambda>x. order.symbol x = s) (fs @ [ord]))) (firstSeen fs)"
      using False by (intro map_cong) auto
    ultimately show ?thesis
      using False snoc
        pushOrder_map [OF distinct_firstSeen, of ord "\<lambda>s. filter (\<lambda>x. order.symbol x = s) fs" fs]
      by (simp add: firstSeen_snoc del: set_firstSeen)
  qed
qed

lemma ordersBySymbol_eq:
  "ordersBySymbol orders = map (\<lambda>s. (s, ordersOf s orders)) (firstSeen (filledOrders orders))"
  by (simp add: ordersBySymbol_def grouped_eq filledOrders_def ordersOf_def)

lemma ordersOf_empty:
  assumes "s \<notin> set (firstSeen (filledOrders orders))"
  shows "ordersOf s orders = []"
proof -
  have "\<forall>x \<in> set (filledOrders orders). order.symbol x \<noteq> s"
    using assms by (metis imageI set_firstSeen)
  then show ?thesis by (simp add: ordersOf_def filter_empty_conv)
qed

section \<open>The round trips of one symbol in the output\<close>

lemma tripsOfMatches_symbol: "rt \<in> set (tripsOfMatches symb p d ms) \<Longrightarrow> trade.symbol rt = symb"
  by (auto simp: tripsOfMatches_def mkRoundTrip_def)

lemma run_symbol: "rt \<in> set (snd (run symb buyQueue ords)) \<Longrightarrow> trade.symbol rt = symb"
  by (induction ords arbitrary: buyQueue) (auto simp: Let_def dest: tripsOfMatches_symbol)

lemma symbolTrips_symbol: "rt \<in> set (symbolTrips symb os) \<Longrightarrow> trade.symbol rt = symb"
  by (auto simp: symbolTrips_def dest: run_symbol)

lemma symbolTrips_Nil [simp]: "symbolTrips symb [] = []"
  by (simp add: symbolTrips_def)

lemma filter_symbolTrips:
  "filter (\<lambda>rt. trade.symbol rt = s) (symbolTrips symb os) = (if symb = s then symbolTrips symb os else [])"
  by (auto simp: filter_empty_conv filter_id_conv dest: symbolTrips_symbol)

lemma filter_concat_keys:
  assumes "distinct ks"
  shows "filter (\<lambda>rt. trade.symbol rt = s) (concat (map (\<lambda>k. symbolTrips k (f k)) ks))
         = (if s \<in> set ks then symbolTrips s (f s) else [])"
  using assms by (induction ks) (auto simp: filter_symbolTrips)

lemma filter_allRoundTrips:
  "filter (\<lambda>rt. trade.symbol rt = s) (allRoundTrips orders) = symbolTrips s (ordersOf s orders)"
proof -
  have "allRoundTrips orders =
        concat (map (\<lambda>k. symbolTrips k (ordersOf k orders)) (firstSeen (filledOrders orders)))"
    by (simp add: allRoundTrips_concat ordersBySymbol_eq comp_def)
  then show ?thesis
    using filter_concat_keys [OF distinct_firstSeen, of s "\<lambda>k. ordersOf k orders" "filledOrders orders"]
          ordersOf_empty [of s orders]
    by (auto simp del: set_firstSeen)
qed

lemma filter_roundTrips:
  "filter (\<lambda>rt. trade.symbol rt = s) (roundTrips (Some orders))
   = sort_key sellDate (symbolTrips s (ordersOf s orders))"
  by (simp add: filter_sort filter_allRoundTrips)

lemma truncate_fields [simp]:
  "trade.symbol (trade.truncate rt) = trade.symbol rt"
  "trade.qty (trade.truncate rt) = trade.qty rt"
  "trade.pl (trade.truncate rt) = trade.pl rt"
  "plPercent (trade.truncate rt) = plPercent rt"
  "buyPrice (trade.truncate rt) = buyPrice rt"
  "sellPrice (trade.truncate rt) = sellPrice rt"
  "sellDate (trade.truncate rt) = sellDate rt"
  "buyDate (trade.truncate rt) = buyDate rt"
  by (simp_all add: trade.truncate_def)

lemma filter_tradeHistory:
  "filter (\<lambda>t. trade.symbol t = s) (fst (tradeHistory (Some orders)))
   = map trade.truncate (symbolTrips s (ordersOf s orders))"
  unfolding tradeHistory_trips by (simp add: filter_map comp_def filter_allRoundTrips)

lemma update_fresh: "k \<notin> fst ` set al \<Longrightarrow> AList.update k v al = al @ [(k, v)]"
  by (induction al) auto

lemma foldl_update_fresh:
  assumes "distinct ks" and "set ks \<inter> fst ` set st = {}"
  shows "foldl (\<lambda>st (symb, symbolOrders). AList.update symb (g symb symbolOrders) st) st
           (map (\<lambda>s. (s, f s)) ks)
         = st @ map (\<lambda>s. (s, g s (f s))) ks"
  using assms
proof (induction ks arbitrary: st)
  case Nil
  then show ?case by simp
next
  case (Cons k ks)
  have fresh: "k \<notin> fst ` set st" using Cons.prems by auto
  have "set ks \<inter> fst ` set (st @ [(k, g k (f k))]) = {}"
    using Cons.prems by auto
  then show ?case
    using Cons.IH [of "st @ [(k, g k (f k))]"] Cons.prems
    by (simp add: update_fresh [OF fresh])
qed

lemma tradeHistory_stats:
  "snd (tradeHistory (Some orders)) =
     map (\<lambda>s. (s, statOf (symbolTrips s (ordersOf s orders)))) (firstSeen (filledOrders orders))"
  using foldl_update_fresh [OF distinct_firstSeen, of "filledOrders orders" "[]"
          "\<lambda>s os. statOf (symbolTrips s os)" "\<lambda>s. ordersOf s orders"]
  by (simp add: foldl_matchSymbolT ordersBySymbol_eq)

lemma map_of_tradeHistory_stats:
  "map_of (snd (tradeHistory (Some orders))) s =
     (if s \<in> order.symbol ` set (filledOrders orders)
      then Some (statOf (symbolTrips s (ordersOf s orders))) else None)"
  unfolding tradeHistory_stats
  by (simp add: map_of_map_restrict restrict_map_def del: tradeHistory.simps)

section \<open>Rounding\<close>

text \<open>The exponent brackets its argument.\<close>

lemma powi_pos: "0 < (2::rat) powi e"
  by simp

lemma expo_spec:
  assumes "0 < x"
  shows "2 powi (expo x) \<le> x \<and> x < 2 powi (expo x + 1)"
proof -
  obtain a b where q: "quotient_of x = (a, b)" by (cases "quotient_of x")
  then have b: "0 < b" by (rule quotient_of_denom_pos)
  have x: "x = of_int a / of_int b" using q by (rule quotient_of_div)
  have a: "0 < a" using assms b x by (simp add: zero_less_divide_iff)
  let ?la = "bitlen a" and ?lb = "bitlen b"
  have la: "1 \<le> ?la" and lb: "1 \<le> ?lb"
    using a b bitlen_eq_zero_iff [of a] bitlen_eq_zero_iff [of b] bitlen_nonneg [of a] bitlen_nonneg [of b]
    by linarith+
  have ba: "(2::int) ^ nat (?la - 1) \<le> a" "a < 2 ^ nat ?la"
    using bitlen_bounds [OF a] by simp_all
  have bb: "(2::int) ^ nat (?lb - 1) \<le> b" "b < 2 ^ nat ?lb"
    using bitlen_bounds [OF b] by simp_all
  have ra: "(2::rat) powi (?la - 1) \<le> of_int a" "of_int a < (2::rat) powi ?la"
  proof -
    have "(of_int ((2::int) ^ nat (?la - 1)) :: rat) \<le> of_int a"
      using ba(1) by (simp only: of_int_le_iff)
    then show "(2::rat) powi (?la - 1) \<le> of_int a"
      using la by (simp add: power_int_def)
    have "(of_int a :: rat) < of_int ((2::int) ^ nat ?la)"
      using ba(2) by (simp only: of_int_less_iff)
    then show "of_int a < (2::rat) powi ?la"
      using la by (simp add: power_int_def)
  qed
  have rb: "(2::rat) powi (?lb - 1) \<le> of_int b" "of_int b < (2::rat) powi ?lb"
  proof -
    have "(of_int ((2::int) ^ nat (?lb - 1)) :: rat) \<le> of_int b"
      using bb(1) by (simp only: of_int_le_iff)
    then show "(2::rat) powi (?lb - 1) \<le> of_int b"
      using lb by (simp add: power_int_def)
    have "(of_int b :: rat) < of_int ((2::int) ^ nat ?lb)"
      using bb(2) by (simp only: of_int_less_iff)
    then show "of_int b < (2::rat) powi ?lb"
      using lb by (simp add: power_int_def)
  qed
  have bpos: "(0::rat) < of_int b" using b by simp
  have apos: "(0::rat) < of_int a" using a by simp
  have up: "x < 2 powi (?la - ?lb + 1)"
  proof -
    have h: "of_int a / of_int b < (2::rat) powi ?la / 2 powi (?lb - 1)"
      using ra(2) rb(1) apos by (intro frac_less) simp_all
    have eq: "?la - (?lb - 1) = ?la - ?lb + 1" by simp
    have "(2::rat) powi ?la / 2 powi (?lb - 1) = 2 powi (?la - ?lb + 1)"
      using power_int_diff [of "2::rat" ?la "?lb - 1", unfolded eq] by simp
    then show ?thesis unfolding x using h by simp
  qed
  have low: "2 powi (?la - ?lb - 1) \<le> x"
  proof -
    have h: "(2::rat) powi (?la - 1) / 2 powi ?lb \<le> of_int a / of_int b"
      using ra(1) rb(2) bpos apos by (intro frac_le) simp_all
    have eq: "?la - 1 - ?lb = ?la - ?lb - 1" by simp
    have "(2::rat) powi (?la - 1) / 2 powi ?lb = 2 powi (?la - ?lb - 1)"
      using power_int_diff [of "2::rat" "?la - 1" ?lb, unfolded eq] by simp
    then show ?thesis unfolding x using h by simp
  qed
  show ?thesis
  proof (cases "2 powi (?la - ?lb) \<le> x")
    case True
    then have "expo x = ?la - ?lb" by (simp add: expo_def q)
    then show ?thesis using True up by simp
  next
    case False
    then have "expo x = ?la - ?lb - 1" by (simp add: expo_def q)
    then show ?thesis using False low by simp
  qed
qed

lemma roundEven_int [simp]: "roundEven (of_int n) = n"
  by (simp add: roundEven_def)

lemma roundEven_eqI:
  assumes "\<bar>y - of_int n\<bar> < 1 / 2"
  shows "roundEven y = n"
proof -
  consider (lo) "of_int n \<le> y" | (hi) "y < of_int n" by linarith
  then show ?thesis
  proof cases
    case lo
    then have "\<lfloor>y\<rfloor> = n" using assms by (intro floor_unique) auto
    then show ?thesis using assms lo by (simp add: roundEven_def)
  next
    case hi
    then have f: "\<lfloor>y\<rfloor> = n - 1" using assms by (intro floor_unique) auto
    have "1 / 2 < y - of_int (n - 1)" using assms hi by auto
    then show ?thesis using f by (auto simp: roundEven_def Let_def)
  qed
qed

lemma roundEven_tie:
  assumes "y = of_int n + 1 / 2"
  shows "roundEven y = (if even n then n else n + 1)"
proof -
  have "\<lfloor>y\<rfloor> = n" using assms by (intro floor_unique) auto
  then show ?thesis using assms by (simp add: roundEven_def)
qed

lemma roundEven_bounds:
  "y - 1 / 2 \<le> of_int (roundEven y) \<and> of_int (roundEven y) \<le> y + 1 / 2"
proof -
  define f where "f = \<lfloor>y\<rfloor>"
  have "of_int f \<le> y" "y < of_int f + 1" unfolding f_def by linarith+
  then show ?thesis unfolding roundEven_def Let_def f_def [symmetric] by auto
qed

lemma powi_split: "(2::rat) powi (a + int k) = 2 powi a * 2 ^ k"
  by (simp add: power_int_add)

lemma powi_less_cancel:
  assumes "(2::rat) powi a < 2 powi b"
  shows "a < b"
proof (rule ccontr)
  assume "\<not> a < b"
  then have "(2::rat) powi b \<le> 2 powi a" by (intro power_int_increasing) simp_all
  then show False using assms by linarith
qed

lemma powi_le_cancel:
  assumes "(2::rat) powi a \<le> 2 powi b"
  shows "a \<le> b"
proof (rule ccontr)
  assume "\<not> a \<le> b"
  then have "(2::rat) powi b < 2 powi a" by (intro power_int_strict_increasing) simp_all
  then show False using assms by linarith
qed

lemma expo_eqI:
  assumes "0 < x" and "2 powi e \<le> x" and "x < 2 powi (e + 1)"
  shows "expo x = e"
proof (rule ccontr)
  assume ne: "expo x \<noteq> e"
  have s: "2 powi (expo x) \<le> x" "x < 2 powi (expo x + 1)"
    using expo_spec [OF assms(1)] by simp_all
  consider (lt) "expo x + 1 \<le> e" | (gt) "e + 1 \<le> expo x" using ne by linarith
  then show False
  proof cases
    case lt
    then have "(2::rat) powi (expo x + 1) \<le> 2 powi e" by (intro power_int_increasing) simp_all
    then show False using s(2) assms(2) by linarith
  next
    case gt
    then have "(2::rat) powi (e + 1) \<le> 2 powi (expo x)" by (intro power_int_increasing) simp_all
    then show False using s(1) assms(3) by linarith
  qed
qed

lemma rnd_minus: "x \<noteq> 0 \<Longrightarrow> rnd (- x) = jneg (rnd x)"
  by (auto simp: rnd_def Let_def)

lemma rnd_posI:
  assumes "0 < x" and "e = max (expo x) (- 1022)"
    and "m = of_int (roundEven (x / 2 powi (e - 52))) * 2 powi (e - 52)"
    and "0 < m" and "m < 2 powi 1024"
  shows "rnd x = Num m"
proof -
  define T where "T = (2::rat) powi 1024"
  have a: "\<bar>x\<bar> = x" using assms(1) by simp
  have "rnd x = (if T \<le> m then (if 0 < x then PInf else NInf)
                 else if m = 0 then (if 0 < x then Num 0 else NegZero)
                 else Num (if 0 < x then m else - m))"
    unfolding rnd_def Let_def a T_def assms(3) assms(2) using assms(1) by simp
  also have "\<dots> = Num m"
    using assms(1,4,5) unfolding T_def [symmetric] by simp
  finally show ?thesis .
qed

text \<open>Rounding a positive number whose binary exponent is known.\<close>

lemma rnd_normal:
  assumes "0 < x" and "2 powi e \<le> x" and "x < 2 powi (e + 1)" and "- 1022 \<le> e" and "e < 1023"
  shows "rnd x = Num (of_int (roundEven (x / 2 powi (e - 52))) * 2 powi (e - 52))"
proof -
  let ?q = "(2::rat) powi (e - 52)"
  let ?n = "roundEven (x / ?q)"
  have e: "e = max (expo x) (- 1022)" using assms by (simp add: expo_eqI)
  have q: "0 < ?q" by simp
  have p52: "?q * 2 ^ 52 = 2 powi e"
    using power_int_add [of "2::rat" "e - 52" 52] by simp
  have lo: "2 ^ 52 \<le> x / ?q"
    using assms(2) q p52 by (simp add: pos_le_divide_eq mult.commute)
  have hi: "x / ?q < 2 ^ 53"
  proof -
    have "e + 1 = (e - 52) + int 53" by simp
    then have "2 powi (e + 1) = ?q * 2 ^ 53" by (simp only: powi_split)
    then show ?thesis using assms(3) q by (simp add: pos_divide_less_eq mult.commute)
  qed
  have nlo: "(2::rat) ^ 52 - 1 / 2 \<le> of_int ?n" and nhi: "of_int ?n \<le> (2::rat) ^ 53 + 1 / 2"
    using roundEven_bounds [of "x / ?q"] lo hi by linarith+
  have npos: "0 < of_int ?n * ?q"
    using nlo q by (intro mult_pos_pos) auto
  have "of_int ?n \<le> (2::rat) ^ 53"
  proof -
    have "of_int ?n < (of_int (2 ^ 53 + 1) :: rat)" using nhi by simp
    then have "?n < 2 ^ 53 + 1" by (simp only: of_int_less_iff)
    then have "?n \<le> 2 ^ 53" by simp
    then have "(of_int ?n :: rat) \<le> of_int (2 ^ 53)" by (simp only: of_int_le_iff)
    then show ?thesis by simp
  qed
  then have "of_int ?n * ?q \<le> 2 ^ 53 * ?q" using q by (simp add: mult_right_mono)
  also have "2 ^ 53 * ?q = 2 powi (e + 1)"
  proof -
    have "e + 1 = (e - 52) + int 53" by simp
    then have "2 powi (e + 1) = ?q * 2 ^ 53" by (simp only: powi_split)
    then show ?thesis by (simp only: mult.commute)
  qed
  also have "\<dots> < 2 powi 1024"
    using assms(5) by (intro power_int_strict_increasing) simp_all
  finally have no: "of_int ?n * ?q < 2 powi 1024" .
  show ?thesis
    using assms(1) e refl npos no by (rule rnd_posI)
qed

text \<open>A number of magnitude at least \<open>2^-1022\<close> does not round to zero and keeps its sign.\<close>

lemma rnd_pos:
  assumes "0 < x" and "2 powi (- 1022) \<le> x"
  shows "rnd x = PInf \<or> (\<exists>m. rnd x = Num m \<and> 0 < m)"
proof -
  let ?e = "expo \<bar>x\<bar>"
  have s: "2 powi ?e \<le> x" "x < 2 powi (?e + 1)"
    using expo_spec [of x] assms(1) by simp_all
  have "(2::rat) powi (- 1022) < 2 powi (?e + 1)" using assms(2) s(2) by linarith
  then have "- 1022 < ?e + 1" by (rule powi_less_cancel)
  then have e: "- 1022 \<le> ?e" by simp
  let ?q = "(2::rat) powi (?e - 52)"
  have q: "0 < ?q" by simp
  have "?q * 2 ^ 52 = 2 powi ?e"
    using power_int_add [of "2::rat" "?e - 52" 52] by simp
  then have "2 ^ 52 \<le> x / ?q"
    using s(1) q by (simp add: pos_le_divide_eq mult.commute)
  moreover have "(0::rat) < 2 ^ 52 - 1 / 2" by simp
  ultimately have "(0::rat) < of_int (roundEven (x / ?q))"
    using roundEven_bounds [of "x / ?q"] by linarith
  then have "0 < of_int (roundEven (x / ?q)) * ?q"
    using q by (intro mult_pos_pos)
  then show ?thesis
    using assms(1) e by (auto simp: rnd_def Let_def max_def)
qed

lemma rnd_neg:
  assumes "x < 0" and "x \<le> - (2 powi (- 1022))"
  shows "rnd x = NInf \<or> (\<exists>m. rnd x = Num m \<and> m < 0)"
proof -
  have "rnd (- x) = PInf \<or> (\<exists>m. rnd (- x) = Num m \<and> 0 < m)"
    using assms by (intro rnd_pos) auto
  moreover have "rnd x = jneg (rnd (- x))"
    using rnd_minus [of "- x"] assms(1) by simp
  ultimately show ?thesis by auto
qed

text \<open>Whole numbers up to \<open>2^53\<close> are doubles.\<close>

lemma rnd_nat:
  assumes "0 < n" and "n \<le> 2 ^ 53"
  shows "rnd (of_int n) = Num (of_int n)"
proof -
  let ?x = "of_int n :: rat"
  let ?e = "expo ?x"
  have "?x \<le> of_int (2 ^ 53)" using assms(2) by (simp only: of_int_le_iff)
  then have x: "0 < ?x" "1 \<le> ?x" "?x \<le> 2 ^ 53"
    using assms(1) by simp_all
  have s: "2 powi ?e \<le> ?x" "?x < 2 powi (?e + 1)"
    using expo_spec [of ?x] x(1) by simp_all
  have "(2::rat) powi 0 < 2 powi (?e + 1)" using x(2) s(2) by simp
  then have "0 < ?e + 1" by (rule powi_less_cancel)
  then have e0: "0 \<le> ?e" by simp
  have "(2::rat) powi ?e \<le> 2 powi 53" using s(1) x(3) by simp
  then have e53: "?e \<le> 53" by (rule powi_le_cancel)
  have m: "of_int (roundEven (?x / 2 powi (?e - 52))) * 2 powi (?e - 52) = ?x"
  proof (cases "?e \<le> 52")
    case True
    have "(2::rat) powi (?e - 52) * 2 ^ nat (52 - ?e) = 1"
      using power_int_add [of "2::rat" "?e - 52" "52 - ?e"] True by (simp add: power_int_def)
    then have d: "?x / 2 powi (?e - 52) = of_int (n * 2 ^ nat (52 - ?e))"
      by (simp add: field_simps)
    show ?thesis
      unfolding d roundEven_int
      using \<open>(2::rat) powi (?e - 52) * 2 ^ nat (52 - ?e) = 1\<close> by (simp add: field_simps)
  next
    case False
    then have e: "?e = 53" using e53 by simp
    then have xe: "?x = 2 ^ 53" using s(1) x(3) by simp
    have d: "?x / 2 powi (?e - 52) = of_int (2 ^ 52)"
      unfolding e unfolding xe by simp
    show ?thesis
      unfolding d roundEven_int unfolding e unfolding xe by simp
  qed
  have "?x < 2 powi 1024" using x(3) by simp
  moreover have "?e = max (expo ?x) (- 1022)" using e0 by simp
  ultimately show ?thesis
    using x(1) m [symmetric] by (intro rnd_posI [where e = ?e])
qed

lemma rnd_int:
  assumes "n \<noteq> 0" and "\<bar>n\<bar> \<le> 2 ^ 53"
  shows "rnd (of_int n) = Num (of_int n)"
proof (cases "0 < n")
  case True
  then show ?thesis using assms by (simp add: rnd_nat)
next
  case False
  then have "rnd (of_int (- n)) = Num (of_int (- n))" using assms by (intro rnd_nat) auto
  then show ?thesis
    using rnd_minus [of "of_int (- n)"] assms(1) by simp
qed

lemma rnd_0 [simp]: "rnd 0 = Num 0"
  by (simp add: rnd_def)

lemma jadd_Num_cases:
  "jadd (Num a) (Num b) = PInf \<or> jadd (Num a) (Num b) = NInf
   \<or> (\<exists>c. jadd (Num a) (Num b) = Num c \<and> (0 < c \<longleftrightarrow> 0 < a + b) \<and> (c < 0 \<longleftrightarrow> a + b < 0))"
proof (cases "\<bar>a + b\<bar> < minNormal")
  case True
  then show ?thesis by (simp add: jadd_Num)
next
  case False
  consider (p) "0 < a + b" | (n) "a + b < 0" using False minNormal_pos by linarith
  then show ?thesis
  proof cases
    case p
    then have "rnd (a + b) = PInf \<or> (\<exists>m. rnd (a + b) = Num m \<and> 0 < m)"
      using False by (intro rnd_pos) (simp_all add: minNormal_def)
    then show ?thesis using False p by (auto simp: jadd_Num)
  next
    case n
    then have "rnd (a + b) = NInf \<or> (\<exists>m. rnd (a + b) = Num m \<and> m < 0)"
      using False by (intro rnd_neg) (simp_all add: minNormal_def)
    then show ?thesis using False n by (auto simp: jadd_Num)
  qed
qed

lemma jadd_Num_sign:
  "0 < a + b \<Longrightarrow> jadd (Num a) (Num b) = PInf \<or> (\<exists>c. jadd (Num a) (Num b) = Num c \<and> 0 < c)"
  "a + b < 0 \<Longrightarrow> jadd (Num a) (Num b) = NInf \<or> (\<exists>c. jadd (Num a) (Num b) = Num c \<and> c < 0)"
  "a + b = 0 \<Longrightarrow> jadd (Num a) (Num b) = Num 0"
proof -
  show "jadd (Num a) (Num b) = PInf \<or> (\<exists>c. jadd (Num a) (Num b) = Num c \<and> 0 < c)"
    if p: "0 < a + b"
  proof (cases "\<bar>a + b\<bar> < minNormal")
    case True
    then show ?thesis using p by (simp add: jadd_Num)
  next
    case False
    then have "rnd (a + b) = PInf \<or> (\<exists>m. rnd (a + b) = Num m \<and> 0 < m)"
      using p by (intro rnd_pos) (simp_all add: minNormal_def)
    then show ?thesis using False by (simp add: jadd_Num)
  qed
  show "jadd (Num a) (Num b) = NInf \<or> (\<exists>c. jadd (Num a) (Num b) = Num c \<and> c < 0)"
    if n: "a + b < 0"
  proof (cases "\<bar>a + b\<bar> < minNormal")
    case True
    then show ?thesis using n by (simp add: jadd_Num)
  next
    case False
    then have "rnd (a + b) = NInf \<or> (\<exists>m. rnd (a + b) = Num m \<and> m < 0)"
      using n by (intro rnd_neg) (simp_all add: minNormal_def)
    then show ?thesis using False by (simp add: jadd_Num)
  qed
  show "jadd (Num a) (Num b) = Num 0" if "a + b = 0"
    using that by (simp add: jadd_Num)
qed

lemma jadd_Num_not: "jadd (Num a) (Num b) \<noteq> NaN" "jadd (Num a) (Num b) \<noteq> NegZero"
  using jadd_Num_cases [of a b] by auto

lemma jadd_NegZero: "jadd a b = NegZero \<longleftrightarrow> a = NegZero \<and> b = NegZero"
  using jadd_Num_not(2) by (cases a; cases b) simp_all

lemma foldl_jadd_not_NegZero: "a \<noteq> NegZero \<Longrightarrow> foldl jadd a xs \<noteq> NegZero"
  by (induction xs arbitrary: a) (simp_all add: jadd_NegZero)

lemma jsum_not_NegZero: "jsum xs \<noteq> NegZero"
  by (simp add: jsum_def foldl_jadd_not_NegZero)

lemma jsub_same: "jsub (Num a) (Num a) = Num 0"
  by (simp add: jsub_def)

text \<open>Whole numbers: sums, differences and products up to \<open>2^53\<close> are exact.\<close>

lemma rnd_Ints:
  assumes "x \<in> \<int>" and "\<bar>x\<bar> \<le> 2 ^ 53"
  shows "rnd x = Num x"
proof -
  obtain n where n: "x = of_int n" using assms(1) by (auto elim: Ints_cases)
  have "\<bar>of_int n :: rat\<bar> \<le> of_int (2 ^ 53)" using assms(2) n by simp
  then have "(of_int \<bar>n\<bar> :: rat) \<le> of_int (2 ^ 53)" by simp
  then have b: "\<bar>n\<bar> \<le> 2 ^ 53" by (simp only: of_int_le_iff)
  show ?thesis
  proof (cases "n = 0")
    case True
    then show ?thesis by (simp add: n)
  next
    case False
    then show ?thesis unfolding n using b by (rule rnd_int)
  qed
qed

lemma minNormal_le_1: "minNormal \<le> 1"
proof -
  have "(2::rat) powi (- 1022) \<le> 2 powi 0" by (intro power_int_increasing) simp_all
  then show ?thesis by (simp add: minNormal_def)
qed

lemma small_Ints:
  assumes "x \<in> \<int>" and "\<bar>x\<bar> < minNormal"
  shows "x = 0"
proof -
  obtain n where n: "x = of_int n" using assms(1) by (auto elim: Ints_cases)
  have "\<bar>of_int n :: rat\<bar> < 1" using assms(2) minNormal_le_1 n by simp
  then have "(of_int \<bar>n\<bar> :: rat) < of_int 1" by simp
  then have "\<bar>n\<bar> < 1" by (simp only: of_int_less_iff)
  then show ?thesis by (simp add: n)
qed

lemma jadd_Ints:
  assumes "a \<in> \<int>" and "b \<in> \<int>" and "\<bar>a + b\<bar> \<le> 2 ^ 53"
  shows "jadd (Num a) (Num b) = Num (a + b)"
proof -
  have "a + b \<in> \<int>" using assms by simp
  then show ?thesis using assms(3) by (simp add: jadd_Num rnd_Ints)
qed

lemma jsub_Ints:
  assumes "a \<in> \<int>" and "b \<in> \<int>" and "\<bar>a - b\<bar> \<le> 2 ^ 53"
  shows "jsub (Num a) (Num b) = Num (a - b)"
proof (cases "b = 0")
  case True
  then show ?thesis by (simp add: jsub_def)
next
  case False
  then show ?thesis using jadd_Ints [of a "- b"] assms by (simp add: jsub_def)
qed

lemma jmul_Ints:
  assumes "a \<in> \<int>" and "b \<in> \<int>" and "a \<noteq> 0" and "b \<noteq> 0" and "\<bar>a * b\<bar> \<le> 2 ^ 53"
  shows "jmul (Num a) (Num b) = Num (a * b)"
proof -
  have "a * b \<in> \<int>" using assms by simp
  then show ?thesis using assms by (simp add: jmul_def isZero_def isInf_def rnd_Ints)
qed

lemma jmul_zero:
  "jmul (Num 0) (Num b) = (if b < 0 then NegZero else Num 0)"
  "jmul (Num a) (Num 0) = (if a < 0 then NegZero else Num 0)"
  by (simp_all add: jmul_def isZero_def isInf_def)

text \<open>Rounding a number whose exponent and nearest significand are given.\<close>

lemma rnd_eval:
  assumes "0 < x" and "2 powi e \<le> x" and "x < 2 powi (e + 1)" and "- 1022 \<le> e" and "e < 1023"
    and "\<bar>x / 2 powi (e - 52) - of_int n\<bar> < 1 / 2"
  shows "rnd x = Num (of_int n * 2 powi (e - 52))"
  using rnd_normal [OF assms(1-5)] roundEven_eqI [OF assms(6)] by simp

lemma rnd_eval_tie:
  assumes "0 < x" and "2 powi e \<le> x" and "x < 2 powi (e + 1)" and "- 1022 \<le> e" and "e < 1023"
    and "x / 2 powi (e - 52) = of_int n + 1 / 2"
  shows "rnd x = Num (of_int (if even n then n else n + 1) * 2 powi (e - 52))"
  using rnd_normal [OF assms(1-5)] roundEven_tie [OF assms(6)] by simp

lemma rnd_subnormal_pos:
  assumes "0 < x" and "x < minNormal" and "x = of_int k * 2 powi (- 1074)"
  shows "rnd x = Num x"
proof -
  define q where "q = (2::rat) powi (- 1074)"
  have q: "0 < q" by (simp add: q_def)
  have "2 powi expo x \<le> x" using expo_spec [OF assms(1)] by simp
  then have "(2::rat) powi expo x < 2 powi (- 1022)" using assms(2) by (simp add: minNormal_def)
  then have "expo x < - 1022" by (rule powi_less_cancel)
  then have e: "- 1022 = max (expo x) (- 1022)" by simp
  have "x / q = of_int k" using assms(3) q by (simp add: q_def)
  then have m: "x = of_int (roundEven (x / q)) * q" using assms(3) by (simp add: q_def)
  have "(2::rat) powi (- 1022) < 2 powi 1024" by (intro power_int_strict_increasing) simp_all
  then have "x < 2 powi 1024" using assms(2) by (simp only: minNormal_def)
  have qe: "(2::rat) powi (- 1022 - 52) = q" by (simp add: q_def)
  show ?thesis
    using assms(1) e m assms(1) \<open>x < 2 powi 1024\<close> unfolding qe [symmetric] by (rule rnd_posI)
qed

lemma rnd_subnormal:
  assumes "\<bar>x\<bar> < minNormal" and "x = of_int k * 2 powi (- 1074)"
  shows "rnd x = Num x"
proof -
  consider (z) "x = 0" | (p) "0 < x" | (n) "x < 0" by linarith
  then show ?thesis
  proof cases
    case z
    then show ?thesis by (simp add: rnd_def)
  next
    case p
    then show ?thesis using assms by (intro rnd_subnormal_pos [of x k]) simp_all
  next
    case n
    have "rnd (- x) = Num (- x)"
      using n assms by (intro rnd_subnormal_pos [of "- x" "- k"]) simp_all
    then show ?thesis using rnd_minus [of "- x"] n by simp
  qed
qed

text \<open>The doubles are multiples of \<open>2^-1074\<close>, so a tiny sum of two doubles is not rounded.\<close>

lemma jadd_Num_is_rounding:
  assumes "a = of_int i * 2 powi (- 1074)" and "b = of_int j * 2 powi (- 1074)"
  shows "jadd (Num a) (Num b) = rnd (a + b)"
proof (cases "\<bar>a + b\<bar> < minNormal")
  case True
  have "a + b = of_int (i + j) * 2 powi (- 1074)"
    unfolding assms by (simp only: of_int_add distrib_right)
  then have "rnd (a + b) = Num (a + b)" using True by (intro rnd_subnormal [of _ "i + j"])
  then show ?thesis using True by (simp add: jadd_Num)
next
  case False
  then show ?thesis by (simp add: jadd_Num)
qed

section \<open>Sums of whole numbers\<close>

text \<open>Sums of whole numbers whose absolute values add up to at most \<open>2^53\<close> are exact.\<close>

definition wholeNumber :: "jsnum \<Rightarrow> bool" where
  "wholeNumber x = (case x of Num a \<Rightarrow> a = of_int \<lfloor>a\<rfloor> | _ \<Rightarrow> False)"

lemma wholeNumber_Ints:
  assumes "wholeNumber x"
  shows "\<exists>a. x = Num a \<and> a \<in> \<int>"
proof (cases x)
  case (Num a)
  then have "a = of_int \<lfloor>a\<rfloor>" using assms by (simp add: wholeNumber_def)
  then have "a \<in> \<int>" by (metis Ints_of_int)
  then show ?thesis using Num by simp
qed (use assms in \<open>simp_all add: wholeNumber_def\<close>)

lemma wholeNumber_Num: "a \<in> \<int> \<Longrightarrow> wholeNumber (Num a)"
  by (auto simp: wholeNumber_def elim: Ints_cases)

lemma foldl_jadd_whole:
  assumes "\<forall>x \<in> set xs. wholeNumber x" and "a \<in> \<int>"
    and "\<bar>a\<bar> + sum_list (map (\<lambda>x. \<bar>numval x\<bar>) xs) \<le> 2 ^ 53"
  shows "foldl jadd (Num a) xs = Num (a + sum_list (map numval xs))"
  using assms
proof (induction xs arbitrary: a)
  case Nil
  then show ?case by simp
next
  case (Cons x xs)
  obtain b where b: "x = Num b" "b \<in> \<int>"
    using Cons.prems(1) wholeNumber_Ints [of x] by auto
  have nn: "0 \<le> sum_list (map (\<lambda>x. \<bar>numval x\<bar>) xs)"
    by (rule sum_list_nonneg) auto
  have "\<bar>a + b\<bar> \<le> \<bar>a\<bar> + \<bar>b\<bar>" by simp
  then have ab: "\<bar>a + b\<bar> \<le> 2 ^ 53" using Cons.prems(3) nn b by simp
  have step: "jadd (Num a) (Num b) = Num (a + b)"
    using Cons.prems(2) b(2) ab by (rule jadd_Ints)
  have "foldl jadd (Num (a + b)) xs = Num (a + b + sum_list (map numval xs))"
  proof (rule Cons.IH)
    show "\<forall>x \<in> set xs. wholeNumber x" using Cons.prems(1) by simp
    show "a + b \<in> \<int>" using Cons.prems(2) b(2) by simp
    show "\<bar>a + b\<bar> + sum_list (map (\<lambda>x. \<bar>numval x\<bar>) xs) \<le> 2 ^ 53"
      using Cons.prems(3) b by simp
  qed
  then show ?case by (simp add: b step add.assoc)
qed

lemma jsum_whole:
  assumes "\<forall>x \<in> set xs. wholeNumber x" and "sum_list (map (\<lambda>x. \<bar>numval x\<bar>) xs) \<le> 2 ^ 53"
  shows "jsum xs = Num (sum_list (map numval xs))"
  using foldl_jadd_whole [OF assms(1), of 0] assms(2) by (simp add: jsum_def)

lemma sum_list_filter_le:
  fixes f :: "'a \<Rightarrow> rat"
  assumes "\<forall>x \<in> set xs. 0 \<le> f x"
  shows "sum_list (map f (filter P xs)) \<le> sum_list (map f xs)"
  using assms by (induction xs) (auto intro: add_increasing)

lemma sum_list_Ints:
  fixes f :: "'a \<Rightarrow> rat"
  shows "\<forall>x \<in> set xs. f x \<in> \<int> \<Longrightarrow> sum_list (map f xs) \<in> \<int>"
  by (induction xs) simp_all

section \<open>Evaluating the pages on concrete orders\<close>

text \<open>A filled order with numeric quantity and price.\<close>

abbreviation filledOrder :: "string \<Rightarrow> string \<Rightarrow> rat \<Rightarrow> rat \<Rightarrow> int \<Rightarrow> order" where
  "filledOrder symb sd q p t \<equiv>
     \<lparr> order.symbol = symb, side = sd, status = ''filled'',
       filled_qty = Num q, filled_avg_price = Num p, filled_at = t \<rparr>"

lemmas matcher_defs =
  allRoundTrips_def ordersBySymbol_def matchSymbol_def openLots_def matchSymbolT_def
  mkRoundTrip_def mkTrade_def mkStat_def jgt_def jge_def jmin_def jsub_def Let_def
  jadd_Ints jmul_Ints jmul_zero

text \<open>A filled order as received, with the two fields as they arrive.\<close>

abbreviation receivedOrder :: "string \<Rightarrow> string \<Rightarrow> string option \<Rightarrow> string option \<Rightarrow> int \<Rightarrow> apiOrder" where
  "receivedOrder symb sd q p t \<equiv>
     \<lparr> apiOrder.symbol = symb, side = sd, status = ''filled'',
       filled_qty = q, filled_avg_price = p, filled_at = t \<rparr>"

text \<open>Reading a field that holds a whole number.\<close>

lemmas parse_defs =
  parseOrder_def isSpace_def isDigit_def digitsVal_def exponentOf_def rnd_Ints Let_def

section \<open>C1: the FIFO example\<close>

text \<open>
  C1. Three filled orders on one symbol, buy 10 at 100 at T1, buy 5 at 110 at T2 and
  sell 12 at 120 at T3 with T1 < T2 < T3, give exactly two round trips, in this order:
  quantity 10 bought at 100 and sold at 120 with profit 200, then quantity 2 bought at
  110 and sold at 120 with profit 20. One open lot of 3 units at 110 remains in the
  queue. Both pages compute these round trips.
\<close>

theorem fifo_example:
  assumes "T1 < T2" and "T2 < T3"
  shows "map (\<lambda>rt. (trade.symbol rt, trade.qty rt, buyPrice rt, sellPrice rt, trade.pl rt,
                    buyDate rt, sellDate rt))
           (roundTrips (Some [filledOrder s ''buy'' 10 100 T1, filledOrder s ''buy'' 5 110 T2,
                              filledOrder s ''sell'' 12 120 T3]))
         = [(s, Num 10, Num 100, Num 120, Num 200, T1, T3),
            (s, Num 2, Num 110, Num 120, Num 20, T2, T3)]
       \<and> map (\<lambda>rt. (trade.symbol rt, trade.qty rt, buyPrice rt, sellPrice rt, trade.pl rt,
                    buyDate rt, sellDate rt))
           (fst (tradeHistory (Some [filledOrder s ''buy'' 10 100 T1,
                                     filledOrder s ''buy'' 5 110 T2,
                                     filledOrder s ''sell'' 12 120 T3])))
         = [(s, Num 10, Num 100, Num 120, Num 200, T1, T3),
            (s, Num 2, Num 110, Num 120, Num 20, T2, T3)]
       \<and> openLots [filledOrder s ''buy'' 10 100 T1, filledOrder s ''buy'' 5 110 T2,
                   filledOrder s ''sell'' 12 120 T3]
         = [(s, [\<lparr> lot.qty = Num 3, price = Num 110, date = T2 \<rparr>])]"
  using assms by (simp add: matcher_defs matchLoop.simps matchLoopT.simps)

theorem fifo_example_witness:
  "(1::int) < 2 \<and> (2::int) < 3
   \<and> map (\<lambda>rt. (trade.symbol rt, trade.qty rt, buyPrice rt, sellPrice rt, trade.pl rt,
                buyDate rt, sellDate rt))
       (roundTrips (Some [filledOrder ''AAPL'' ''buy'' 10 100 1,
                          filledOrder ''AAPL'' ''buy'' 5 110 2,
                          filledOrder ''AAPL'' ''sell'' 12 120 3]))
     = [(''AAPL'', Num 10, Num 100, Num 120, Num 200, 1, 3),
        (''AAPL'', Num 2, Num 110, Num 120, Num 20, 2, 3)]
   \<and> openLots [filledOrder ''AAPL'' ''buy'' 10 100 1, filledOrder ''AAPL'' ''buy'' 5 110 2,
               filledOrder ''AAPL'' ''sell'' 12 120 3]
     = [(''AAPL'', [\<lparr> lot.qty = Num 3, price = Num 110, date = 2 \<rparr>])]"
  using fifo_example [of 1 2 3 "''AAPL''"] by simp

section \<open>C7: no round trips\<close>

text \<open>
  C7. With no round trips the metrics are the defaults and nothing fails: totalTrades,
  winRate, totalPL, profitFactor and expectancy are 0, largestWin and largestLoss are
  null.
\<close>

theorem aggregate_empty:
  "metrics [] =
     \<lparr> totalTrades = 0, winners = 0, losers = 0, winRate = Num 0, totalPL = Num 0,
       avgWin = Num 0, avgLoss = Num 0, avgWinPercent = Num 0, avgLossPercent = Num 0,
       profitFactor = Num 0, largestWin = None, largestLoss = None, expectancy = Num 0 \<rparr>"
  by (simp add: metrics_def)

section \<open>C4: the order of the output\<close>

lemma tripsOfMatches_sellDate: "rt \<in> set (tripsOfMatches symb p d ms) \<Longrightarrow> sellDate rt = d"
  by (auto simp: tripsOfMatches_def mkRoundTrip_def)

lemma run_sellDate:
  "rt \<in> set (snd (run symb buyQueue ords)) \<Longrightarrow> sellDate rt \<in> filled_at ` set ords"
  by (induction ords arbitrary: buyQueue) (auto simp: Let_def dest: tripsOfMatches_sellDate)

lemma sorted_run:
  "sorted (map filled_at ords) \<Longrightarrow> sorted (map sellDate (snd (run symb buyQueue ords)))"
proof (induction ords arbitrary: buyQueue)
  case Nil
  then show ?case by simp
next
  case (Cons ord ords)
  let ?now = "tripsOfMatches symb (filled_avg_price ord) (filled_at ord) (snd (queueStep buyQueue ord))"
  let ?later = "snd (run symb (fst (queueStep buyQueue ord)) ords)"
  have now: "\<forall>rt \<in> set ?now. sellDate rt = filled_at ord"
    by (auto dest: tripsOfMatches_sellDate)
  then have "map sellDate ?now = replicate (length ?now) (filled_at ord)"
    by (simp add: map_replicate_const [symmetric] cong: map_cong)
  then have s1: "sorted (map sellDate ?now)" by (simp add: sorted_replicate)
  have s2: "sorted (map sellDate ?later)" using Cons by simp
  have "\<forall>rt \<in> set ?later. filled_at ord \<le> sellDate rt"
  proof
    fix rt assume "rt \<in> set ?later"
    then have "sellDate rt \<in> filled_at ` set ords" by (rule run_sellDate)
    then show "filled_at ord \<le> sellDate rt" using Cons.prems by auto
  qed
  then show ?case
    using s1 s2 now by (auto simp: Let_def sorted_append)
qed

lemma sorted_symbolTrips: "sorted (map sellDate (symbolTrips symb os))"
  by (simp add: symbolTrips_def sorted_run)

text \<open>
  C4, as amended. The round trips the Analytics matcher returns are sorted ascending by
  sell time. The Trade History matcher returns its round trips without the final sort:
  among them the round trips of each one symbol are in ascending order of sell time, and
  the sequence as a whole need not be.
\<close>

theorem output_order:
  "sorted (map sellDate (roundTrips orders))
   \<and> sorted (map sellDate (filter (\<lambda>t. trade.symbol t = s) (fst (tradeHistory orders))))"
proof (cases orders)
  case None
  then show ?thesis by simp
next
  case (Some os)
  have "sorted (map sellDate (map trade.truncate (symbolTrips s (ordersOf s os))))"
    using sorted_symbolTrips [of s "ordersOf s os"] by (simp add: comp_def)
  then show ?thesis
    unfolding Some filter_tradeHistory by simp
qed

theorem tradeHistory_unsorted_counterexample:
  "map (\<lambda>t. (trade.symbol t, sellDate t))
     (fst (tradeHistory (Some [filledOrder ''A'' ''buy'' 1 10 1, filledOrder ''A'' ''sell'' 1 11 4,
                               filledOrder ''B'' ''buy'' 1 10 2, filledOrder ''B'' ''sell'' 1 11 3])))
   = [(''A'', 4), (''B'', 3)]
   \<and> \<not> sorted (map sellDate
        (fst (tradeHistory (Some [filledOrder ''A'' ''buy'' 1 10 1, filledOrder ''A'' ''sell'' 1 11 4,
                                  filledOrder ''B'' ''buy'' 1 10 2, filledOrder ''B'' ''sell'' 1 11 3]))))"
  by (simp add: matcher_defs matchLoopT.simps)

section \<open>C8: a buy price of zero\<close>

lemma tripsOfMatches_plPercent:
  "rt \<in> set (tripsOfMatches symb p d ms) \<Longrightarrow>
   plPercent rt = jmul (jdiv (jsub (sellPrice rt) (buyPrice rt)) (buyPrice rt)) (Num 100)"
  by (auto simp: tripsOfMatches_def mkRoundTrip_def)

lemma run_plPercent:
  "rt \<in> set (snd (run symb buyQueue ords)) \<Longrightarrow>
   plPercent rt = jmul (jdiv (jsub (sellPrice rt) (buyPrice rt)) (buyPrice rt)) (Num 100)"
  by (induction ords arbitrary: buyQueue) (auto simp: Let_def dest: tripsOfMatches_plPercent)

lemma allRoundTrips_plPercent:
  "rt \<in> set (allRoundTrips orders) \<Longrightarrow>
   plPercent rt = jmul (jdiv (jsub (sellPrice rt) (buyPrice rt)) (buyPrice rt)) (Num 100)"
  by (auto simp: allRoundTrips_concat symbolTrips_def dest: run_plPercent)

lemma percent_of_zero_price:
  assumes "finite_num sp"
  shows "jmul (jdiv (jsub sp (Num 0)) (Num 0)) (Num 100)
         = (if 0 < numval sp then PInf else if numval sp < 0 then NInf else NaN)"
proof (cases sp)
  case (Num p)
  then show ?thesis
    by (simp add: jsub_def jdiv_def jmul_def isZero_def isInf_def)
next
  case NegZero
  then show ?thesis
    by (simp add: jsub_def jdiv_def jmul_def isZero_def isInf_def)
qed (use assms in \<open>simp_all add: finite_num_def\<close>)

lemma percent_of_negative_zero_price:
  assumes "finite_num sp"
  shows "jmul (jdiv (jsub sp NegZero) NegZero) (Num 100)
         = (if 0 < numval sp then NInf else if numval sp < 0 then PInf else NaN)"
proof (cases sp)
  case (Num p)
  consider (pos) "0 < p" | (neg) "p < 0" | (zero) "p = 0" by linarith
  then show ?thesis
  proof cases
    case pos
    then have "jadd (Num p) (Num 0) = PInf \<or> (\<exists>c. jadd (Num p) (Num 0) = Num c \<and> 0 < c)"
      using jadd_Num_sign(1) [of p 0] by simp
    then show ?thesis
      using pos Num by (auto simp: jsub_def jdiv_def jmul_def isZero_def isInf_def)
  next
    case neg
    then have "jadd (Num p) (Num 0) = NInf \<or> (\<exists>c. jadd (Num p) (Num 0) = Num c \<and> c < 0)"
      using jadd_Num_sign(2) [of p 0] by simp
    then show ?thesis
      using neg Num by (auto simp: jsub_def jdiv_def jmul_def isZero_def isInf_def)
  next
    case zero
    then have "jadd (Num p) (Num 0) = Num 0"
      using jadd_Num_sign(3) [of p 0] by simp
    then show ?thesis
      using zero Num by (simp add: jsub_def jdiv_def jmul_def isZero_def isInf_def)
  qed
next
  case NegZero
  then show ?thesis
    by (simp add: jsub_def jdiv_def jmul_def isZero_def isInf_def)
qed (use assms in \<open>simp_all add: finite_num_def\<close>)

text \<open>
  C8, as amended. The percentage of a round trip is computed as
  (sellPrice - buyPrice) / buyPrice * 100 with no guard. Against a buy lot whose price
  is 0 and for a finite sell price it is therefore +Infinity when the sell price is
  positive, -Infinity when it is negative, and NaN when it is zero. Against a buy lot
  whose price is \<open>-0\<close>, which is what \<open>parseFloat\<close> reads from the field \<open>-0\<close>, the two
  infinities are exchanged. This holds for the round trips of both pages.
\<close>

theorem plPercent_zero_buy_price:
  assumes "t \<in> set (map trade.truncate (roundTrips orders)) \<union> set (fst (tradeHistory orders))"
    and "finite_num (sellPrice t)"
  shows "(buyPrice t = Num 0 \<longrightarrow>
            plPercent t = (if 0 < numval (sellPrice t) then PInf
                           else if numval (sellPrice t) < 0 then NInf else NaN))
       \<and> (buyPrice t = NegZero \<longrightarrow>
            plPercent t = (if 0 < numval (sellPrice t) then NInf
                           else if numval (sellPrice t) < 0 then PInf else NaN))"
proof (cases orders)
  case None
  then show ?thesis using assms by simp
next
  case (Some os)
  from assms(1) obtain rt where rt: "rt \<in> set (allRoundTrips os)" and t: "t = trade.truncate rt"
    unfolding Some tradeHistory_trips by auto
  have "plPercent rt = jmul (jdiv (jsub (sellPrice rt) (buyPrice rt)) (buyPrice rt)) (Num 100)"
    using rt by (rule allRoundTrips_plPercent)
  then have "plPercent t = jmul (jdiv (jsub (sellPrice t) (buyPrice t)) (buyPrice t)) (Num 100)"
    by (simp add: t)
  then show ?thesis
    using percent_of_zero_price [OF assms(2)] percent_of_negative_zero_price [OF assms(2)]
    by simp
qed

theorem plPercent_zero_buy_price_witness:
  "\<lparr> trade.symbol = ''A'', buyPrice = Num 0, sellPrice = Num 10, qty = Num 1, pl = Num 10,
     plPercent = PInf, buyDate = 1, sellDate = 2 \<rparr>
     \<in> set (fst (tradeHistory (Some [filledOrder ''A'' ''buy'' 1 0 1, filledOrder ''A'' ''sell'' 1 10 2])))
   \<and> \<lparr> trade.symbol = ''A'', buyPrice = NegZero, sellPrice = Num 10, qty = Num 1, pl = Num 10,
       plPercent = NInf, buyDate = 1, sellDate = 2 \<rparr>
     \<in> set (fst (tradeHistory (Some (map parseOrder
         [\<lparr> apiOrder.symbol = ''A'', side = ''buy'', status = ''filled'',
            filled_qty = Some ''1'', filled_avg_price = Some ''-0'', filled_at = 1 \<rparr>,
          \<lparr> apiOrder.symbol = ''A'', side = ''sell'', status = ''filled'',
            filled_qty = Some ''1'', filled_avg_price = Some ''10'', filled_at = 2 \<rparr>]))))"
  using plPercent_zero_buy_price
    [of "\<lparr> trade.symbol = ''A'', buyPrice = Num 0, sellPrice = Num 10, qty = Num 1, pl = Num 10,
           plPercent = PInf, buyDate = 1, sellDate = 2 \<rparr>"
        "Some [filledOrder ''A'' ''buy'' 1 0 1, filledOrder ''A'' ''sell'' 1 10 2]"]
    plPercent_zero_buy_price
    [of "\<lparr> trade.symbol = ''A'', buyPrice = NegZero, sellPrice = Num 10, qty = Num 1, pl = Num 10,
           plPercent = NInf, buyDate = 1, sellDate = 2 \<rparr>"
        "Some (map parseOrder
         [\<lparr> apiOrder.symbol = ''A'', side = ''buy'', status = ''filled'',
            filled_qty = Some ''1'', filled_avg_price = Some ''-0'', filled_at = 1 \<rparr>,
          \<lparr> apiOrder.symbol = ''A'', side = ''sell'', status = ''filled'',
            filled_qty = Some ''1'', filled_avg_price = Some ''10'', filled_at = 2 \<rparr>])"]
  by (simp add: matcher_defs matchLoopT.simps parse_defs finite_num_def jdiv_def jmul_def
        isZero_def isInf_def)

theorem plPercent_sentinel_counterexample:
  "map (\<lambda>rt. (buyPrice rt, sellPrice rt, plPercent rt))
     (roundTrips (Some [filledOrder ''A'' ''buy'' 1 0 1, filledOrder ''A'' ''sell'' 1 10 2]))
   = [(Num 0, Num 10, PInf)]
   \<and> map (\<lambda>rt. (buyPrice rt, sellPrice rt, plPercent rt))
     (roundTrips (Some [filledOrder ''A'' ''buy'' 1 0 1, filledOrder ''A'' ''sell'' 1 0 2]))
   = [(Num 0, Num 0, NaN)]
   \<and> map (\<lambda>rt. (buyPrice rt, sellPrice rt, plPercent rt))
     (fst (tradeHistory (Some [filledOrder ''A'' ''buy'' 1 0 1, filledOrder ''A'' ''sell'' 1 10 2])))
   = [(Num 0, Num 10, PInf)]"
  by (simp add: matcher_defs matchLoop.simps matchLoopT.simps jdiv_def jmul_def
        isZero_def isInf_def)

section \<open>C9: orders with a missing or non-numeric field\<close>








section \<open>C6: the profit factor\<close>

text \<open>The sums of the claim: over the winners and over the losers.\<close>

definition winsSum :: "roundTrip list \<Rightarrow> jsnum" where
  "winsSum trips = jsum (map trade.pl (filter (\<lambda>rt. jge (trade.pl rt) (Num 0)) trips))"

definition lossesSum :: "roundTrip list \<Rightarrow> jsnum" where
  "lossesSum trips = jsum (map trade.pl (filter (\<lambda>rt. jlt (trade.pl rt) (Num 0)) trips))"

lemma jadd_nonneg: "jge a (Num 0) \<Longrightarrow> jge b (Num 0) \<Longrightarrow> jge (jadd a b) (Num 0)"
proof (cases a; cases b)
  fix x y
  assume "jge a (Num 0)" and "jge b (Num 0)" and "a = Num x" and "b = Num y"
  then show ?thesis
    using jadd_Num_sign [of x y] by (cases "x + y = 0") (auto simp: jge_def)
qed (simp_all add: jge_def)

lemma jadd_neg: "jle a (Num 0) \<Longrightarrow> jlt b (Num 0) \<Longrightarrow> jlt (jadd a b) (Num 0)"
proof (cases a; cases b)
  fix x y
  assume "jle a (Num 0)" and "jlt b (Num 0)" and "a = Num x" and "b = Num y"
  then show ?thesis
    using jadd_Num_sign(2) [of x y] by auto
qed simp_all

lemma jlt_jle: "jlt a b \<Longrightarrow> jle a b"
  by (cases a; cases b) simp_all

lemma foldl_jadd_nonneg:
  "jge a (Num 0) \<Longrightarrow> \<forall>x \<in> set xs. jge x (Num 0) \<Longrightarrow> jge (foldl jadd a xs) (Num 0)"
  by (induction xs arbitrary: a) (simp_all add: jadd_nonneg)

lemma foldl_jadd_neg:
  "jlt a (Num 0) \<Longrightarrow> \<forall>x \<in> set xs. jlt x (Num 0) \<Longrightarrow> jlt (foldl jadd a xs) (Num 0)"
  by (induction xs arbitrary: a) (simp_all add: jadd_neg jlt_jle)

lemma winsSum_cases: "jgt (winsSum trips) (Num 0) \<or> winsSum trips = Num 0"
proof -
  have "jge (winsSum trips) (Num 0)"
    unfolding winsSum_def jsum_def by (rule foldl_jadd_nonneg) (simp_all add: jge_def)
  moreover have "winsSum trips \<noteq> NegZero"
    unfolding winsSum_def by (rule jsum_not_NegZero)
  ultimately show ?thesis
    by (cases "winsSum trips") (auto simp: jge_def jgt_def)
qed

lemma lossesSum_cases:
  "(lossesSum trips = Num 0 \<and> filter (\<lambda>rt. jlt (trade.pl rt) (Num 0)) trips = [])
   \<or> jlt (lossesSum trips) (Num 0)"
proof (cases "filter (\<lambda>rt. jlt (trade.pl rt) (Num 0)) trips")
  case Nil
  then show ?thesis by (simp add: lossesSum_def jsum_def)
next
  case (Cons rt rts)
  have "set (rt # rts) = {x \<in> set trips. jlt (trade.pl x) (Num 0)}"
    using Cons [symmetric] by simp
  then have all: "\<forall>x \<in> set (rt # rts). jlt (trade.pl x) (Num 0)"
    by blast
  then have "jlt (jadd (Num 0) (trade.pl rt)) (Num 0)"
    by (simp add: jadd_neg)
  then have "jlt (foldl jadd (jadd (Num 0) (trade.pl rt)) (map trade.pl rts)) (Num 0)"
    by (rule foldl_jadd_neg) (use all in simp)
  then show ?thesis by (simp add: lossesSum_def jsum_def Cons)
qed

lemma jabs_neg: "jlt a (Num 0) \<Longrightarrow> jgt (jabs a) (Num 0)"
  by (cases a) (simp_all add: jgt_def)

lemma profitFactor_eq:
  "profitFactor (metrics trips) =
     (if jgt (jabs (lossesSum trips)) (Num 0) then jdiv (winsSum trips) (jabs (lossesSum trips))
      else if jgt (winsSum trips) (Num 0) then PInf else Num 0)"
  by (cases trips) (simp_all add: metrics_def winsSum_def lossesSum_def Let_def jsum_def jgt_def)

text \<open>
  C6. The profit factor is the sum of the profits of the winners (profit at least 0)
  divided by the absolute value of the sum of the profits of the losers (profit below
  0). When the losers' sum is 0 and the winners' sum is positive it is +Infinity, a value
  and not an error; when both sums are 0 it is 0. These cases are all the cases: the
  winners' sum is positive or 0, and the losers' sum is negative or 0.
\<close>

theorem profitFactor_cases:
  "(jabs (lossesSum trips) \<noteq> Num 0 \<longrightarrow>
      profitFactor (metrics trips) = jdiv (winsSum trips) (jabs (lossesSum trips)))
   \<and> (lossesSum trips = Num 0 \<and> jgt (winsSum trips) (Num 0) \<longrightarrow>
      profitFactor (metrics trips) = PInf)
   \<and> (lossesSum trips = Num 0 \<and> winsSum trips = Num 0 \<longrightarrow>
      profitFactor (metrics trips) = Num 0)
   \<and> (jgt (winsSum trips) (Num 0) \<or> winsSum trips = Num 0)
   \<and> (jlt (lossesSum trips) (Num 0) \<or> lossesSum trips = Num 0)"
proof -
  consider (zero) "lossesSum trips = Num 0" | (neg) "jlt (lossesSum trips) (Num 0)"
    using lossesSum_cases [of trips] by blast
  then show ?thesis
  proof cases
    case zero
    then show ?thesis
      using winsSum_cases [of trips] by (auto simp: profitFactor_eq jgt_def)
  next
    case neg
    then have "jgt (jabs (lossesSum trips)) (Num 0)" by (rule jabs_neg)
    moreover have "lossesSum trips \<noteq> Num 0" using neg by auto
    ultimately show ?thesis
      using winsSum_cases [of trips] neg by (simp add: profitFactor_eq)
  qed
qed

theorem profitFactor_cases_witness:
  "profitFactor (metrics
     [\<lparr> trade.symbol = ''A'', buyPrice = Num 100, sellPrice = Num 150, qty = Num 1, pl = Num 50,
        plPercent = Num 50, buyDate = 1, sellDate = 2, cost = Num 100, revenue = Num 150 \<rparr>]) = PInf
   \<and> profitFactor (metrics
     [\<lparr> trade.symbol = ''A'', buyPrice = Num 100, sellPrice = Num 150, qty = Num 1, pl = Num 50,
        plPercent = Num 50, buyDate = 1, sellDate = 2, cost = Num 100, revenue = Num 150 \<rparr>,
      \<lparr> trade.symbol = ''A'', buyPrice = Num 100, sellPrice = Num 90, qty = Num 2, pl = Num (- 20),
        plPercent = Num (- 10), buyDate = 1, sellDate = 3, cost = Num 200, revenue = Num 180 \<rparr>])
     = Num (5 / 2)
   \<and> profitFactor (metrics
     [\<lparr> trade.symbol = ''A'', buyPrice = Num 100, sellPrice = Num 100, qty = Num 1, pl = Num 0,
        plPercent = Num 0, buyDate = 1, sellDate = 2, cost = Num 100, revenue = Num 100 \<rparr>]) = Num 0"
  using profitFactor_cases
     [of "[\<lparr> trade.symbol = ''A'', buyPrice = Num 100, sellPrice = Num 150, qty = Num 1, pl = Num 50,
        plPercent = Num 50, buyDate = 1, sellDate = 2, cost = Num 100, revenue = Num 150 \<rparr>]"]
    profitFactor_cases
     [of "[\<lparr> trade.symbol = ''A'', buyPrice = Num 100, sellPrice = Num 150, qty = Num 1, pl = Num 50,
        plPercent = Num 50, buyDate = 1, sellDate = 2, cost = Num 100, revenue = Num 150 \<rparr>,
      \<lparr> trade.symbol = ''A'', buyPrice = Num 100, sellPrice = Num 90, qty = Num 2, pl = Num (- 20),
        plPercent = Num (- 10), buyDate = 1, sellDate = 3, cost = Num 200, revenue = Num 180 \<rparr>]"]
    profitFactor_cases
     [of "[\<lparr> trade.symbol = ''A'', buyPrice = Num 100, sellPrice = Num 100, qty = Num 1, pl = Num 0,
        plPercent = Num 0, buyDate = 1, sellDate = 2, cost = Num 100, revenue = Num 100 \<rparr>]"]
  using rnd_eval [of "5 / 2" 1 5629499534213120]
  by (simp add: winsSum_def lossesSum_def jsum_def jge_def jgt_def jadd_Ints jdiv_def isZero_def
        isInf_def)

section \<open>C2: matched quantity against bought quantity\<close>

text \<open>A quantity in whole shares: a whole number from 1 to \<open>2^53\<close>.\<close>

definition wholeShares :: "jsnum \<Rightarrow> bool" where
  "wholeShares x = (case x of Num a \<Rightarrow> a = of_int \<lfloor>a\<rfloor> \<and> 0 < a \<and> a \<le> 2 ^ 53 | _ \<Rightarrow> False)"

lemma wholeShares_Num:
  assumes "wholeShares x"
  shows "\<exists>a. x = Num a \<and> a \<in> \<int> \<and> 0 < a \<and> a \<le> 2 ^ 53"
proof (cases x)
  case (Num a)
  then have "a = of_int \<lfloor>a\<rfloor>" using assms by (simp add: wholeShares_def)
  then have "a \<in> \<int>" by (metis Ints_of_int)
  then show ?thesis using Num assms by (simp add: wholeShares_def)
qed (use assms in \<open>simp_all add: wholeShares_def\<close>)

lemma wholeShares_I: "a \<in> \<int> \<Longrightarrow> 0 < a \<Longrightarrow> a \<le> 2 ^ 53 \<Longrightarrow> wholeShares (Num a)"
  by (auto simp: wholeShares_def elim: Ints_cases)

lemma wholeShares_whole: "wholeShares x \<Longrightarrow> wholeNumber x"
  by (cases x) (simp_all add: wholeShares_def wholeNumber_def)

lemma sum_list_sort_key:
  fixes g :: "'a \<Rightarrow> rat"
  shows "sum_list (map g (sort_key f xs)) = sum_list (map g xs)"
proof -
  have "mset (map g (sort_key f xs)) = mset (map g xs)" by simp
  then show ?thesis by (metis sum_mset_sum_list)
qed

text \<open>The total quantity of a queue and of a list of matches.\<close>

definition queueQty :: "lot list \<Rightarrow> rat" where
  "queueQty buyQueue = sum_list (map (\<lambda>b. numval (lot.qty b)) buyQueue)"

definition matchedQty :: "(lot \<times> jsnum) list \<Rightarrow> rat" where
  "matchedQty ms = sum_list (map (\<lambda>(b, m). numval m) ms)"

text \<open>
  One iteration on whole numbers: the matched quantity is the smaller of the two, and
  both subtractions are exact.
\<close>

lemma whole_iteration:
  assumes "a \<in> \<int>" and "0 < a" and "a \<le> 2 ^ 53" and "b \<in> \<int>" and "0 < b" and "b \<le> 2 ^ 53"
  shows "jmin (Num a) (Num b) = Num (min a b)"
    and "jsub (Num b) (Num (min a b)) = Num (b - min a b)"
    and "jsub (Num a) (Num (min a b)) = Num (a - min a b)"
proof -
  show "jmin (Num a) (Num b) = Num (min a b)"
    by (auto simp: jmin_def min_def)
  have m: "min a b \<in> \<int>" using assms(1,4) by (simp add: min_def)
  show "jsub (Num b) (Num (min a b)) = Num (b - min a b)"
    using assms(4) m by (rule jsub_Ints) (use assms in \<open>simp add: min_def\<close>)
  show "jsub (Num a) (Num (min a b)) = Num (a - min a b)"
    using assms(1) m by (rule jsub_Ints) (use assms in \<open>simp add: min_def\<close>)
qed

lemma fifo_conserves:
  assumes "\<forall>b \<in> set buyQueue. wholeShares (lot.qty b)"
    and "\<exists>a. sellQty = Num a \<and> a \<in> \<int> \<and> a \<le> 2 ^ 53"
  shows "(\<forall>b \<in> set (fst (fifo sellQty buyQueue)). wholeShares (lot.qty b))
       \<and> (\<forall>(b, m) \<in> set (snd (fifo sellQty buyQueue)). wholeShares m)
       \<and> matchedQty (snd (fifo sellQty buyQueue)) + queueQty (fst (fifo sellQty buyQueue))
           = queueQty buyQueue"
  using assms
proof (induction sellQty buyQueue rule: fifo.induct)
  case (1 sellQty)
  then show ?case by (simp add: matchedQty_def queueQty_def)
next
  case (2 sellQty buy rest)
  show ?case
  proof (cases "jgt sellQty (Num 0)")
    case False
    then show ?thesis using "2.prems" by (simp add: fifo_stop matchedQty_def)
  next
    case True
    obtain a where a: "sellQty = Num a" "a \<in> \<int>" "a \<le> 2 ^ 53"
      using "2.prems"(2) by blast
    have apos: "0 < a" using True a(1) by (simp add: jgt_def)
    obtain b where b: "lot.qty buy = Num b" "b \<in> \<int>" "0 < b" "b \<le> 2 ^ 53"
      using "2.prems"(1) wholeShares_Num [of "lot.qty buy"] by auto
    define m where "m = min a b"
    have m: "m \<in> \<int>" "0 < m" "m \<le> b" "m \<le> a" "m \<le> 2 ^ 53"
      using a b apos by (simp_all add: m_def min_def)
    have it: "jmin sellQty (lot.qty buy) = Num m"
      "jsub (lot.qty buy) (Num m) = Num (b - m)"
      "jsub sellQty (Num m) = Num (a - m)"
      unfolding a(1) b(1) m_def
      using whole_iteration [OF a(2) apos a(3) b(2) b(3) b(4)] by simp_all
    let ?q = "afterMatch sellQty buy rest"
    let ?r = "fifo (jsub sellQty (jmin sellQty (lot.qty buy))) ?q"
    have q: "?q = (if b - m \<le> 0 then rest else buy\<lparr>lot.qty := Num (b - m)\<rparr> # rest)"
      by (simp add: afterMatch_def it)
    have left: "b - m \<in> \<int>" "b - m \<le> 2 ^ 53" using b m by simp_all
    have posq: "\<forall>x \<in> set ?q. wholeShares (lot.qty x)"
      using "2.prems"(1) left unfolding q by (auto intro: wholeShares_I)
    have sumq: "m + queueQty ?q = queueQty (buy # rest)"
      unfolding q using m b by (auto simp: queueQty_def)
    have "jsub sellQty (jmin sellQty (lot.qty buy)) = Num (a - m)"
      by (simp only: it)
    moreover have "a - m \<in> \<int>" "a - m \<le> 2 ^ 53" using a m by simp_all
    ultimately have sell': "\<exists>c. jsub sellQty (jmin sellQty (lot.qty buy)) = Num c \<and> c \<in> \<int> \<and> c \<le> 2 ^ 53"
      by blast
    have ih: "(\<forall>x \<in> set (fst ?r). wholeShares (lot.qty x))
       \<and> (\<forall>(x, k) \<in> set (snd ?r). wholeShares k)
       \<and> matchedQty (snd ?r) + queueQty (fst ?r) = queueQty ?q"
      using "2.IH" [OF True refl refl] posq sell' by (simp add: afterMatch_def)
    have "fifo sellQty (buy # rest) = (fst ?r, (buy, Num m) # snd ?r)"
      using fifo_step [OF True, of buy rest] by (simp add: it)
    moreover have "wholeShares (Num m)" using m by (intro wholeShares_I) simp_all
    ultimately show ?thesis
      using ih sumq by (simp add: matchedQty_def)
  qed
qed

text \<open>The total quantity of the buy orders in a list.\<close>

definition boughtQty :: "order list \<Rightarrow> rat" where
  "boughtQty ords = sum_list (map (\<lambda>ord. numval (filled_qty ord)) (filter (\<lambda>ord. side ord = ''buy'') ords))"

lemma queueStep_conserves:
  assumes "\<forall>b \<in> set buyQueue. wholeShares (lot.qty b)"
    and "wholeShares (filled_qty ord)"
  shows "(\<forall>b \<in> set (fst (queueStep buyQueue ord)). wholeShares (lot.qty b))
       \<and> (\<forall>(b, m) \<in> set (snd (queueStep buyQueue ord)). wholeShares m)
       \<and> matchedQty (snd (queueStep buyQueue ord)) + queueQty (fst (queueStep buyQueue ord))
           = queueQty buyQueue + boughtQty [ord]"
proof (cases "side ord = ''buy''")
  case True
  then show ?thesis
    using assms by (simp add: queueStep_def matchedQty_def queueQty_def boughtQty_def)
next
  case False
  have "\<exists>a. filled_qty ord = Num a \<and> a \<in> \<int> \<and> a \<le> 2 ^ 53"
    using wholeShares_Num [OF assms(2)] by blast
  then show ?thesis
    using fifo_conserves [OF assms(1), of "filled_qty ord"] assms(1) False
    by (simp add: queueStep_def matchedQty_def boughtQty_def)
qed

lemma tripsOfMatches_qty:
  "map trade.qty (tripsOfMatches symb p d ms) = map snd ms"
  by (auto simp: tripsOfMatches_def mkRoundTrip_def)

lemma matchedQty_trips:
  "sum_list (map (\<lambda>rt. numval (trade.qty rt)) (tripsOfMatches symb p d ms)) = matchedQty ms"
proof -
  have "map (\<lambda>rt. numval (trade.qty rt)) (tripsOfMatches symb p d ms)
        = map numval (map trade.qty (tripsOfMatches symb p d ms))" by simp
  also have "\<dots> = map (\<lambda>(b, m). numval m) ms"
    unfolding tripsOfMatches_qty by (simp add: case_prod_beta)
  finally show ?thesis by (simp add: matchedQty_def)
qed

lemma run_conserves:
  assumes "\<forall>b \<in> set buyQueue. wholeShares (lot.qty b)"
    and "\<forall>ord \<in> set ords. wholeShares (filled_qty ord)"
  shows "(\<forall>b \<in> set (fst (run symb buyQueue ords)). wholeShares (lot.qty b))
       \<and> (\<forall>rt \<in> set (snd (run symb buyQueue ords)). wholeShares (trade.qty rt))
       \<and> sum_list (map (\<lambda>rt. numval (trade.qty rt)) (snd (run symb buyQueue ords)))
           + queueQty (fst (run symb buyQueue ords))
           = queueQty buyQueue + boughtQty ords"
  using assms
proof (induction ords arbitrary: buyQueue)
  case Nil
  then show ?case by (simp add: boughtQty_def)
next
  case (Cons ord ords)
  let ?s = "queueStep buyQueue ord"
  have step: "(\<forall>b \<in> set (fst ?s). wholeShares (lot.qty b))
       \<and> (\<forall>(b, m) \<in> set (snd ?s). wholeShares m)
       \<and> matchedQty (snd ?s) + queueQty (fst ?s) = queueQty buyQueue + boughtQty [ord]"
    using queueStep_conserves [of buyQueue ord] Cons.prems by simp
  have ih: "(\<forall>b \<in> set (fst (run symb (fst ?s) ords)). wholeShares (lot.qty b))
       \<and> (\<forall>rt \<in> set (snd (run symb (fst ?s) ords)). wholeShares (trade.qty rt))
       \<and> sum_list (map (\<lambda>rt. numval (trade.qty rt)) (snd (run symb (fst ?s) ords)))
           + queueQty (fst (run symb (fst ?s) ords))
           = queueQty (fst ?s) + boughtQty ords"
    using Cons.IH [of "fst ?s"] step Cons.prems by simp
  have now: "\<forall>rt \<in> set (tripsOfMatches symb (filled_avg_price ord) (filled_at ord) (snd ?s)).
               wholeShares (trade.qty rt)"
    using step by (auto simp: tripsOfMatches_def mkRoundTrip_def)
  have b: "boughtQty (ord # ords) = boughtQty [ord] + boughtQty ords"
    by (simp add: boughtQty_def)
  show ?case
    using step ih now by (auto simp: Let_def matchedQty_trips b)
qed

lemma queueQty_nonneg:
  "\<forall>b \<in> set buyQueue. wholeShares (lot.qty b) \<Longrightarrow> 0 \<le> queueQty buyQueue"
proof (induction buyQueue)
  case Nil
  then show ?case by (simp add: queueQty_def)
next
  case (Cons b bs)
  then obtain a where "lot.qty b = Num a" "0 < a"
    using wholeShares_Num [of "lot.qty b"] by auto
  then show ?case using Cons by (simp add: queueQty_def)
qed

lemma symbolTrips_bounded:
  assumes "\<forall>ord \<in> set os. wholeShares (filled_qty ord)"
  shows "(\<forall>rt \<in> set (symbolTrips symb os). wholeShares (trade.qty rt))
       \<and> sum_list (map (\<lambda>rt. numval (trade.qty rt)) (symbolTrips symb os)) \<le> boughtQty os"
proof -
  let ?sorted = "sort_key filled_at os"
  have "\<forall>ord \<in> set ?sorted. wholeShares (filled_qty ord)"
    using assms by simp
  then have r: "(\<forall>b \<in> set (fst (run symb [] ?sorted)). wholeShares (lot.qty b))
       \<and> (\<forall>rt \<in> set (snd (run symb [] ?sorted)). wholeShares (trade.qty rt))
       \<and> sum_list (map (\<lambda>rt. numval (trade.qty rt)) (snd (run symb [] ?sorted)))
           + queueQty (fst (run symb [] ?sorted))
           = queueQty [] + boughtQty ?sorted"
    using run_conserves [of "[]" ?sorted symb] by simp
  have "boughtQty ?sorted = boughtQty os"
    by (simp add: boughtQty_def filter_sort sum_list_sort_key)
  moreover have "0 \<le> queueQty (fst (run symb [] ?sorted))"
    using r queueQty_nonneg by blast
  ultimately show ?thesis
    using r by (simp add: symbolTrips_def queueQty_def)
qed

text \<open>The filled buy orders of a symbol.\<close>

definition buysOf :: "string \<Rightarrow> order list \<Rightarrow> order list" where
  "buysOf s orders =
     filter (\<lambda>ord. order.status ord = ''filled'' \<and> order.symbol ord = s \<and> side ord = ''buy'') orders"

lemma buysOf_ordersOf: "filter (\<lambda>ord. side ord = ''buy'') (ordersOf s orders) = buysOf s orders"
  by (simp add: ordersOf_def filledOrders_def buysOf_def conj_commute conj_left_commute)

lemma jsum_shares:
  assumes "\<forall>x \<in> set xs. wholeShares x" and "sum_list (map numval xs) \<le> 2 ^ 53"
  shows "jsum xs = Num (sum_list (map numval xs))"
proof -
  have "map (\<lambda>x. \<bar>numval x\<bar>) xs = map numval xs"
    using assms(1) wholeShares_Num by (intro map_cong refl) fastforce
  then have "sum_list (map (\<lambda>x. \<bar>numval x\<bar>) xs) \<le> 2 ^ 53"
    using assms(2) by (simp only:)
  moreover have "\<forall>x \<in> set xs. wholeNumber x"
    using assms(1) wholeShares_whole by blast
  ultimately show ?thesis by (intro jsum_whole)
qed

text \<open>
  C2, as amended. For every list of orders and every symbol whose filled orders all have
  a quantity in whole shares, a whole number from 1 to \<open>2^53\<close>, and whose filled buy
  orders have quantities that add up to at most \<open>2^53\<close>, the sum of the quantities of the
  round trips emitted for the symbol is at most the sum of the filled quantities of the
  symbol's filled buy orders. This holds for the round trips of both pages. With
  fractional quantities the subtractions of the loop round, and the matched quantities
  can add up to more than was bought.
\<close>

theorem matched_quantity_bounded:
  assumes "\<forall>ord \<in> set (ordersOf s orders). wholeShares (filled_qty ord)"
    and "sum_list (map (\<lambda>ord. numval (filled_qty ord)) (buysOf s orders)) \<le> 2 ^ 53"
  shows "jle (jsum (map trade.qty (filter (\<lambda>rt. trade.symbol rt = s) (roundTrips (Some orders)))))
             (jsum (map filled_qty (buysOf s orders)))
       \<and> jle (jsum (map trade.qty (filter (\<lambda>t. trade.symbol t = s) (fst (tradeHistory (Some orders))))))
             (jsum (map filled_qty (buysOf s orders)))"
proof -
  let ?ts = "symbolTrips s (ordersOf s orders)"
  let ?m = "sum_list (map (\<lambda>rt. numval (trade.qty rt)) ?ts)"
  have bq: "boughtQty (ordersOf s orders) = sum_list (map (\<lambda>ord. numval (filled_qty ord)) (buysOf s orders))"
    by (simp add: boughtQty_def buysOf_ordersOf)
  have b: "(\<forall>rt \<in> set ?ts. wholeShares (trade.qty rt)) \<and> ?m \<le> boughtQty (ordersOf s orders)"
    using assms(1) by (rule symbolTrips_bounded)
  then have m53: "?m \<le> 2 ^ 53" using assms(2) bq by simp
  have "\<forall>x \<in> set (map filled_qty (buysOf s orders)). wholeShares x"
    using assms(1) by (auto simp: buysOf_def ordersOf_def filledOrders_def)
  then have bought: "jsum (map filled_qty (buysOf s orders)) = Num (boughtQty (ordersOf s orders))"
    using jsum_shares [of "map filled_qty (buysOf s orders)"] assms(2) by (simp add: bq comp_def)
  have "\<forall>x \<in> set (map trade.qty (sort_key sellDate ?ts)). wholeShares x"
    using b by simp
  moreover have "sum_list (map numval (map trade.qty (sort_key sellDate ?ts))) = ?m"
    using sum_list_sort_key [of "\<lambda>rt. numval (trade.qty rt)" sellDate ?ts] by (simp add: comp_def)
  ultimately have m1: "jsum (map trade.qty (sort_key sellDate ?ts)) = Num ?m"
    using jsum_shares [of "map trade.qty (sort_key sellDate ?ts)"] m53 by simp
  have "\<forall>x \<in> set (map trade.qty (map trade.truncate ?ts)). wholeShares x"
    using b by simp
  moreover have "sum_list (map numval (map trade.qty (map trade.truncate ?ts))) = ?m"
    by (simp add: comp_def)
  ultimately have m2: "jsum (map trade.qty (map trade.truncate ?ts)) = Num ?m"
    using jsum_shares [of "map trade.qty (map trade.truncate ?ts)"] m53 by simp
  show ?thesis
    unfolding filter_roundTrips filter_tradeHistory m1 m2 bought using b by simp
qed

theorem matched_quantity_bounded_witness:
  "jle (jsum (map trade.qty (filter (\<lambda>rt. trade.symbol rt = ''AAPL'')
          (roundTrips (Some [filledOrder ''AAPL'' ''buy'' 10 100 1,
                             filledOrder ''MSFT'' ''buy'' 7 50 2,
                             filledOrder ''AAPL'' ''buy'' 5 110 2,
                             filledOrder ''AAPL'' ''sell'' 12 120 3,
                             filledOrder ''MSFT'' ''sell'' 9 60 4])))))
       (jsum (map filled_qty (buysOf ''AAPL''
          [filledOrder ''AAPL'' ''buy'' 10 100 1,
           filledOrder ''MSFT'' ''buy'' 7 50 2,
           filledOrder ''AAPL'' ''buy'' 5 110 2,
           filledOrder ''AAPL'' ''sell'' 12 120 3,
           filledOrder ''MSFT'' ''sell'' 9 60 4])))
   \<and> jsum (map filled_qty (buysOf ''AAPL''
          [filledOrder ''AAPL'' ''buy'' 10 100 1,
           filledOrder ''MSFT'' ''buy'' 7 50 2,
           filledOrder ''AAPL'' ''buy'' 5 110 2,
           filledOrder ''AAPL'' ''sell'' 12 120 3,
           filledOrder ''MSFT'' ''sell'' 9 60 4])) = Num 15"
proof -
  let ?os = "[filledOrder ''AAPL'' ''buy'' 10 100 1,
           filledOrder ''MSFT'' ''buy'' 7 50 2,
           filledOrder ''AAPL'' ''buy'' 5 110 2,
           filledOrder ''AAPL'' ''sell'' 12 120 3,
           filledOrder ''MSFT'' ''sell'' 9 60 4]"
  have h1: "\<forall>ord \<in> set (ordersOf ''AAPL'' ?os). wholeShares (filled_qty ord)"
    by (simp add: ordersOf_def filledOrders_def wholeShares_def)
  have h2: "sum_list (map (\<lambda>ord. numval (filled_qty ord)) (buysOf ''AAPL'' ?os)) \<le> 2 ^ 53"
    by (simp add: buysOf_def)
  show ?thesis
    using matched_quantity_bounded [OF h1 h2] by (simp add: buysOf_def jsum_def jadd_Ints)
qed

text \<open>
  Buy 0.1, buy 0.5, sell 0.2, sell 0.4: the lot of 0.5 less the 0.1 matched is 0.4 after
  rounding, so 0.1, 0.1 and 0.4 are matched, which add up to 0.6000000000000001, against
  0.6 bought.
\<close>

theorem matched_quantity_rounding_counterexample:
  "map trade.qty (roundTrips (Some (map parseOrder
      [receivedOrder ''A'' ''buy'' (Some ''0.1'') (Some ''1'') 1,
       receivedOrder ''A'' ''buy'' (Some ''0.5'') (Some ''1'') 2,
       receivedOrder ''A'' ''sell'' (Some ''0.2'') (Some ''1'') 3,
       receivedOrder ''A'' ''sell'' (Some ''0.4'') (Some ''1'') 4])))
   = [rnd (1 / 10), rnd (1 / 10), rnd (2 / 5)]
   \<and> jsum (map trade.qty (filter (\<lambda>rt. trade.symbol rt = ''A'') (roundTrips (Some (map parseOrder
      [receivedOrder ''A'' ''buy'' (Some ''0.1'') (Some ''1'') 1,
       receivedOrder ''A'' ''buy'' (Some ''0.5'') (Some ''1'') 2,
       receivedOrder ''A'' ''sell'' (Some ''0.2'') (Some ''1'') 3,
       receivedOrder ''A'' ''sell'' (Some ''0.4'') (Some ''1'') 4])))))
     = Num (1351079888211149 / 2251799813685248)
   \<and> jsum (map trade.qty (filter (\<lambda>t. trade.symbol t = ''A'') (fst (tradeHistory (Some (map parseOrder
      [receivedOrder ''A'' ''buy'' (Some ''0.1'') (Some ''1'') 1,
       receivedOrder ''A'' ''buy'' (Some ''0.5'') (Some ''1'') 2,
       receivedOrder ''A'' ''sell'' (Some ''0.2'') (Some ''1'') 3,
       receivedOrder ''A'' ''sell'' (Some ''0.4'') (Some ''1'') 4]))))))
     = Num (1351079888211149 / 2251799813685248)
   \<and> jsum (map filled_qty (buysOf ''A'' (map parseOrder
      [receivedOrder ''A'' ''buy'' (Some ''0.1'') (Some ''1'') 1,
       receivedOrder ''A'' ''buy'' (Some ''0.5'') (Some ''1'') 2,
       receivedOrder ''A'' ''sell'' (Some ''0.2'') (Some ''1'') 3,
       receivedOrder ''A'' ''sell'' (Some ''0.4'') (Some ''1'') 4])))
     = Num (5404319552844595 / 9007199254740992)
   \<and> \<not> jle (Num (1351079888211149 / 2251799813685248)) (Num (5404319552844595 / 9007199254740992))"
proof -
  have a: "rnd (1 / 10) = Num (3602879701896397 / 36028797018963968)"
    using rnd_eval [of "1 / 10" "- 4" 7205759403792794] by simp
  have b: "rnd (1 / 5) = Num (3602879701896397 / 18014398509481984)"
    using rnd_eval [of "1 / 5" "- 3" 7205759403792794] by simp
  have c: "rnd (2 / 5) = Num (3602879701896397 / 9007199254740992)"
    using rnd_eval [of "2 / 5" "- 2" 7205759403792794] by simp
  have h: "rnd (1 / 2) = Num (1 / 2)"
    using rnd_eval [of "1 / 2" "- 1" 4503599627370496] by simp
  have d1: "jadd (Num (3602879701896397 / 18014398509481984)) (Num (- (3602879701896397 / 36028797018963968))) = Num (3602879701896397 / 36028797018963968)"
    using rnd_eval [of "3602879701896397 / 18014398509481984 + (- (3602879701896397 / 36028797018963968))" "- 4" 7205759403792794]
    by (simp add: jadd_Num minNormal_def)
  have d2: "jadd (Num (1 / 2)) (Num (- (3602879701896397 / 36028797018963968))) = Num (3602879701896397 / 9007199254740992)"
    using rnd_eval_tie [of "1 / 2 + (- (3602879701896397 / 36028797018963968))" "- 2" 7205759403792793]
    by (simp add: jadd_Num minNormal_def)
  have m1: "jadd (Num 0) (Num (3602879701896397 / 36028797018963968)) = Num (3602879701896397 / 36028797018963968)"
    using rnd_eval [of "0 + 3602879701896397 / 36028797018963968" "- 4" 7205759403792794]
    by (simp add: jadd_Num minNormal_def)
  have m2: "jadd (Num (3602879701896397 / 36028797018963968)) (Num (3602879701896397 / 36028797018963968)) = Num (3602879701896397 / 18014398509481984)"
    using rnd_eval [of "3602879701896397 / 36028797018963968 + 3602879701896397 / 36028797018963968" "- 3" 7205759403792794]
    by (simp add: jadd_Num minNormal_def)
  have m3: "jadd (Num (3602879701896397 / 18014398509481984)) (Num (3602879701896397 / 9007199254740992)) = Num (1351079888211149 / 2251799813685248)"
    using rnd_eval_tie [of "3602879701896397 / 18014398509481984 + 3602879701896397 / 9007199254740992" "- 1" 5404319552844595]
    by (simp add: jadd_Num minNormal_def)
  have b2: "jadd (Num (3602879701896397 / 36028797018963968)) (Num (1 / 2)) = Num (5404319552844595 / 9007199254740992)"
    using rnd_eval [of "3602879701896397 / 36028797018963968 + 1 / 2" "- 1" 5404319552844595]
    by (simp add: jadd_Num minNormal_def)
  show ?thesis
    by (simp add: matcher_defs matchLoop.simps matchLoopT.simps parse_defs buysOf_def jsum_def
          a b c h d1 d2 m1 m2 m3 b2)
qed

section \<open>C5 and C10: the daily series\<close>

text \<open>The calendar day a round trip was sold on, and the round trips sold on a day.\<close>

definition sellDay :: "roundTrip \<Rightarrow> int" where
  "sellDay rt = dateKey (sellDate rt)"

definition soldOn :: "int \<Rightarrow> roundTrip list \<Rightarrow> roundTrip list" where
  "soldOn d trips = filter (\<lambda>rt. sellDay rt = d) trips"

text \<open>A running sum of finite numbers that starts at a number is never NaN and never \<open>-0\<close>.\<close>

lemma jadd_finite_regular:
  assumes "a \<noteq> NaN" and "a \<noteq> NegZero" and "finite_num b"
  shows "jadd a b \<noteq> NaN \<and> jadd a b \<noteq> NegZero"
  using assms jadd_Num_not by (cases a; cases b) (simp_all add: finite_num_def)

lemma foldl_jadd_regular:
  "a \<noteq> NaN \<Longrightarrow> a \<noteq> NegZero \<Longrightarrow> \<forall>x \<in> set xs. finite_num x \<Longrightarrow>
   foldl jadd a xs \<noteq> NaN \<and> foldl jadd a xs \<noteq> NegZero"
  by (induction xs arbitrary: a) (simp_all add: jadd_finite_regular)

lemma jsum_regular:
  "\<forall>x \<in> set xs. finite_num x \<Longrightarrow> jsum xs \<noteq> NaN \<and> jsum xs \<noteq> NegZero"
  unfolding jsum_def by (rule foldl_jadd_regular) simp_all

lemma getOr0_Some:
  "map_of m d = Some v \<Longrightarrow> v \<noteq> NaN \<Longrightarrow> v \<noteq> NegZero \<Longrightarrow> getOr0 m d = v"
  by (simp add: getOr0_def truthy_def)

lemma getOr0_None: "map_of m d = None \<Longrightarrow> getOr0 m d = Num 0"
  by (simp add: getOr0_def)

lemma dailyMap_snoc: "dailyMap (trips @ [rt]) = addTrip (dailyMap trips) rt"
  by (simp add: dailyMap_def)

lemma soldOn_snoc:
  "soldOn d (trips @ [rt]) = soldOn d trips @ (if sellDay rt = d then [rt] else [])"
  by (simp add: soldOn_def)

lemma soldOn_empty:
  assumes "d \<notin> sellDay ` set trips"
  shows "soldOn d trips = []"
proof -
  have "\<forall>rt \<in> set trips. sellDay rt \<noteq> d"
    using assms by (metis imageI)
  then show ?thesis by (simp add: soldOn_def filter_empty_conv)
qed

lemma soldOn_finite:
  "\<forall>rt \<in> set trips. finite_num (trade.pl rt) \<Longrightarrow>
   \<forall>x \<in> set (map trade.pl (soldOn d trips)). finite_num x"
  by (auto simp: soldOn_def)

lemma dailyMap_lookup:
  assumes "\<forall>rt \<in> set trips. finite_num (trade.pl rt)"
  shows "map_of (dailyMap trips) d =
           (if d \<in> sellDay ` set trips then Some (jsum (map trade.pl (soldOn d trips))) else None)"
  using assms
proof (induction trips arbitrary: d rule: rev_induct)
  case Nil
  then show ?case by (simp add: dailyMap_def)
next
  case (snoc rt trips)
  have fin: "\<forall>rt \<in> set trips. finite_num (trade.pl rt)" using snoc.prems by simp
  have ih: "map_of (dailyMap trips) k =
           (if k \<in> sellDay ` set trips then Some (jsum (map trade.pl (soldOn k trips))) else None)" for k
    using snoc.IH fin by simp
  have cur: "getOr0 (dailyMap trips) (sellDay rt) = jsum (map trade.pl (soldOn (sellDay rt) trips))"
  proof (cases "sellDay rt \<in> sellDay ` set trips")
    case True
    then have "map_of (dailyMap trips) (sellDay rt) = Some (jsum (map trade.pl (soldOn (sellDay rt) trips)))"
      using ih [of "sellDay rt"] by simp
    then show ?thesis
      using jsum_regular [OF soldOn_finite [OF fin, of "sellDay rt"]] by (simp add: getOr0_Some)
  next
    case False
    then have "soldOn (sellDay rt) trips = []"
      by (rule soldOn_empty)
    then show ?thesis
      using False ih [of "sellDay rt"] by (simp add: getOr0_None jsum_def)
  qed
  have new: "jadd (jsum (map trade.pl (soldOn (sellDay rt) trips))) (trade.pl rt)
             = jsum (map trade.pl (soldOn (sellDay rt) (trips @ [rt])))"
    by (simp add: soldOn_snoc jsum_def)
  show ?case
    unfolding dailyMap_snoc addTrip_def Let_def sellDay_def [symmetric] cur new
    by (simp add: update_conv' ih soldOn_snoc)
qed

lemma dailyMap_keys: "set (map fst (dailyMap trips)) = sellDay ` set trips"
proof (induction trips rule: rev_induct)
  case Nil
  then show ?case by (simp add: dailyMap_def)
next
  case (snoc rt trips)
  then show ?case
    unfolding dailyMap_snoc addTrip_def Let_def sellDay_def [symmetric]
    by (auto simp: update_keys)
qed

lemma getOr0_dailyMap:
  assumes "\<forall>rt \<in> set trips. finite_num (trade.pl rt)"
  shows "getOr0 (dailyMap trips) d = jsum (map trade.pl (soldOn d trips))"
proof (cases "d \<in> sellDay ` set trips")
  case True
  then have "map_of (dailyMap trips) d = Some (jsum (map trade.pl (soldOn d trips)))"
    using dailyMap_lookup [OF assms, of d] by simp
  then show ?thesis
    using jsum_regular [OF soldOn_finite [OF assms, of d]] by (simp add: getOr0_Some)
next
  case False
  then have "soldOn d trips = []"
    by (rule soldOn_empty)
  then show ?thesis
    using False dailyMap_lookup [OF assms, of d] by (simp add: getOr0_None jsum_def)
qed

lemma hd_sorted_Min: "sorted xs \<Longrightarrow> xs \<noteq> [] \<Longrightarrow> hd xs = Min (set xs)"
  by (cases xs) (auto intro!: Min_eqI [symmetric])

lemma le_last_sorted: "sorted xs \<Longrightarrow> x \<in> set xs \<Longrightarrow> x \<le> last xs"
  by (induction xs) auto

lemma last_sorted_Max: "sorted xs \<Longrightarrow> xs \<noteq> [] \<Longrightarrow> last xs = Max (set xs)"
  by (rule Max_eqI [symmetric]) (auto intro: le_last_sorted)

lemma dailyPL_eq:
  assumes "trips \<noteq> []" and "\<forall>rt \<in> set trips. finite_num (trade.pl rt)"
  shows "dailyPL trips =
           map (\<lambda>d. \<lparr> dayPL.date = d, pl = jsum (map trade.pl (soldOn d trips)) \<rparr>)
             [Min (sellDay ` set trips) .. Max (sellDay ` set trips)]"
proof -
  let ?dates = "sort (map fst (dailyMap trips))"
  have ne: "?dates \<noteq> []"
    using assms(1) dailyMap_keys [of trips] by (cases "dailyMap trips") auto
  have s: "set ?dates = sellDay ` set trips"
    using dailyMap_keys [of trips] by simp
  have "hd ?dates = Min (sellDay ` set trips)" and "last ?dates = Max (sellDay ` set trips)"
    using hd_sorted_Min [of ?dates] last_sorted_Max [of ?dates] ne s by simp_all
  then show ?thesis
    using assms(1) ne by (simp add: dailyPL_def Let_def getOr0_dailyMap [OF assms(2)])
qed

text \<open>
  C5. For every non-empty sequence of round trips with finite profits, the daily series
  has exactly one entry for every calendar day from the earliest sell day to the latest
  sell day, in ascending order of day, and the value of a day is the sum of the profits
  of the round trips sold on that day, which is 0 for a day on which none was sold.
\<close>

theorem dailyPL_gap_filled:
  assumes "trips \<noteq> []" and "\<forall>rt \<in> set trips. finite_num (trade.pl rt)"
  shows "dailyPL trips =
           map (\<lambda>d. \<lparr> dayPL.date = d, pl = jsum (map trade.pl (soldOn d trips)) \<rparr>)
             [Min (sellDay ` set trips) .. Max (sellDay ` set trips)]
       \<and> (\<forall>d. soldOn d trips = [] \<longrightarrow> jsum (map trade.pl (soldOn d trips)) = Num 0)"
  using dailyPL_eq [OF assms] by (simp add: jsum_def)

theorem dailyPL_gap_filled_witness:
  "dailyPL
     [\<lparr> trade.symbol = ''A'', buyPrice = Num 100, sellPrice = Num 150, qty = Num 1, pl = Num 50,
        plPercent = Num 50, buyDate = 1, sellDate = 86400000, cost = Num 100, revenue = Num 150 \<rparr>,
      \<lparr> trade.symbol = ''B'', buyPrice = Num 100, sellPrice = Num 90, qty = Num 2, pl = Num (- 20),
        plPercent = Num (- 10), buyDate = 1, sellDate = 259200005, cost = Num 200, revenue = Num 180 \<rparr>]
   = [\<lparr> dayPL.date = 1, pl = Num 50 \<rparr>, \<lparr> dayPL.date = 2, pl = Num 0 \<rparr>,
      \<lparr> dayPL.date = 3, pl = Num (- 20) \<rparr>]"
proof -
  let ?trips = "[\<lparr> trade.symbol = ''A'', buyPrice = Num 100, sellPrice = Num 150, qty = Num 1, pl = Num 50,
        plPercent = Num 50, buyDate = 1, sellDate = 86400000, cost = Num 100, revenue = Num 150 \<rparr>,
      \<lparr> trade.symbol = ''B'', buyPrice = Num 100, sellPrice = Num 90, qty = Num 2, pl = Num (- 20),
        plPercent = Num (- 10), buyDate = 1, sellDate = 259200005, cost = Num 200, revenue = Num 180 \<rparr>]"
  have h1: "?trips \<noteq> []" by simp
  have h2: "\<forall>rt \<in> set ?trips. finite_num (trade.pl rt)" by (simp add: finite_num_def)
  show ?thesis
    using dailyPL_gap_filled [OF h1 h2]
    by (simp add: sellDay_def dateKey_def soldOn_def jsum_def upto_rec1 jadd_Ints)
qed

lemma last_runningTotals:
  "days \<noteq> [] \<Longrightarrow>
   runningTotals c days \<noteq> []
   \<and> cumulative (last (runningTotals c days)) = foldl jadd c (map dayPL.pl days)"
proof (induction days arbitrary: c)
  case Nil
  then show ?case by simp
next
  case (Cons day days)
  show ?case
    using Cons.IH [of "jadd c (dayPL.pl day)"]
    by (cases "days = []") (auto simp: Let_def)
qed

lemma totalPL_metrics: "totalPL (metrics trips) = jsum (map trade.pl trips)"
  by (cases trips) (simp_all add: metrics_def Let_def jsum_def)

text \<open>The last running total is the sum, in order of day, of the daily sums.\<close>

lemma cumulative_last:
  assumes "trips \<noteq> []" and "\<forall>rt \<in> set trips. finite_num (trade.pl rt)"
  shows "cumulativePL (dailyPL trips) \<noteq> []
       \<and> cumulative (last (cumulativePL (dailyPL trips)))
           = jsum (map (\<lambda>d. jsum (map trade.pl (soldOn d trips)))
                    [Min (sellDay ` set trips) .. Max (sellDay ` set trips)])"
proof -
  let ?lo = "Min (sellDay ` set trips)" and ?hi = "Max (sellDay ` set trips)"
  have range: "\<forall>rt \<in> set trips. ?lo \<le> sellDay rt \<and> sellDay rt \<le> ?hi"
    by simp
  obtain rt where "rt \<in> set trips" using assms(1) by (cases trips) auto
  then have "?lo \<le> ?hi" using range by (meson order_trans)
  then have ne: "[?lo..?hi] \<noteq> []" by simp
  have d: "dailyPL trips
           = map (\<lambda>d. \<lparr> dayPL.date = d, pl = jsum (map trade.pl (soldOn d trips)) \<rparr>) [?lo..?hi]"
    using assms by (rule dailyPL_eq)
  then have dne: "dailyPL trips \<noteq> []" using ne by simp
  have "map dayPL.pl (dailyPL trips) = map (\<lambda>d. jsum (map trade.pl (soldOn d trips))) [?lo..?hi]"
    by (simp add: d comp_def)
  then show ?thesis
    using last_runningTotals [OF dne, of "Num 0"] dne by (simp add: cumulativePL_def jsum_def)
qed

lemma sum_list_delta:
  fixes v :: rat
  assumes "lo \<le> k" and "k \<le> hi"
  shows "sum_list (map (\<lambda>d. if k = d then v else 0) [lo..hi]) = v"
  using assms by (simp add: interv_sum_list_conv_sum_set_int)

lemma regroup_days:
  fixes g :: "roundTrip \<Rightarrow> rat"
  assumes "\<forall>rt \<in> set trips. lo \<le> sellDay rt \<and> sellDay rt \<le> hi"
  shows "sum_list (map (\<lambda>d. sum_list (map g (soldOn d trips))) [lo..hi])
         = sum_list (map g trips)"
  using assms
proof (induction trips)
  case Nil
  then show ?case by (simp add: soldOn_def)
next
  case (Cons rt trips)
  have c: "sum_list (map g (soldOn d (rt # trips)))
           = (if sellDay rt = d then g rt else 0) + sum_list (map g (soldOn d trips))" for d
    by (simp add: soldOn_def)
  have "sum_list (map (\<lambda>d. sum_list (map g (soldOn d (rt # trips)))) [lo..hi])
        = sum_list (map (\<lambda>d. if sellDay rt = d then g rt else 0) [lo..hi])
          + sum_list (map (\<lambda>d. sum_list (map g (soldOn d trips))) [lo..hi])"
    unfolding c by (rule sum_list_addf)
  then show ?case
    using Cons sum_list_delta [of lo "sellDay rt" hi "g rt"] by simp
qed

lemma cumulative_whole:
  assumes "\<forall>rt \<in> set trips. wholeNumber (trade.pl rt)"
    and "sum_list (map (\<lambda>rt. \<bar>numval (trade.pl rt)\<bar>) trips) \<le> 2 ^ 53"
  shows "jsum (map (\<lambda>d. jsum (map trade.pl (soldOn d trips)))
                [Min (sellDay ` set trips) .. Max (sellDay ` set trips)])
         = jsum (map trade.pl trips)"
proof -
  let ?lo = "Min (sellDay ` set trips)" and ?hi = "Max (sellDay ` set trips)"
  let ?g = "\<lambda>rt. numval (trade.pl rt)" and ?h = "\<lambda>rt. \<bar>numval (trade.pl rt)\<bar>"
  let ?D = "\<lambda>d. sum_list (map ?g (soldOn d trips))"
  have range: "\<forall>rt \<in> set trips. ?lo \<le> sellDay rt \<and> sellDay rt \<le> ?hi"
    by simp
  have ints: "\<forall>rt \<in> set trips. ?g rt \<in> \<int>"
    using assms(1) wholeNumber_Ints by fastforce
  have day: "jsum (map trade.pl (soldOn d trips)) = Num (?D d)" for d
  proof -
    have "sum_list (map ?h (soldOn d trips)) \<le> sum_list (map ?h trips)"
      unfolding soldOn_def by (rule sum_list_filter_le) simp
    then have "sum_list (map (\<lambda>x. \<bar>numval x\<bar>) (map trade.pl (soldOn d trips))) \<le> 2 ^ 53"
      using assms(2) by (simp add: comp_def)
    moreover have "\<forall>x \<in> set (map trade.pl (soldOn d trips)). wholeNumber x"
      using assms(1) by (auto simp: soldOn_def)
    ultimately show ?thesis
      using jsum_whole [of "map trade.pl (soldOn d trips)"] by (simp add: comp_def)
  qed
  have Dint: "?D d \<in> \<int>" for d
    by (rule sum_list_Ints) (use ints in \<open>auto simp: soldOn_def\<close>)
  have "sum_list (map (\<lambda>d. \<bar>?D d\<bar>) [?lo..?hi])
        \<le> sum_list (map (\<lambda>d. sum_list (map ?h (soldOn d trips))) [?lo..?hi])"
  proof (rule sum_list_mono)
    fix d
    show "\<bar>?D d\<bar> \<le> sum_list (map ?h (soldOn d trips))"
      using sum_list_abs [of "map ?g (soldOn d trips)"] by (simp add: comp_def)
  qed
  also have "\<dots> = sum_list (map ?h trips)"
    using range by (rule regroup_days)
  finally have bound: "sum_list (map (\<lambda>d. \<bar>?D d\<bar>) [?lo..?hi]) \<le> 2 ^ 53"
    using assms(2) by simp
  have "jsum (map (\<lambda>d. Num (?D d)) [?lo..?hi]) = Num (sum_list (map ?D [?lo..?hi]))"
    using jsum_whole [of "map (\<lambda>d. Num (?D d)) [?lo..?hi]"] bound Dint
    by (simp add: comp_def wholeNumber_Num)
  also have "\<dots> = Num (sum_list (map ?g trips))"
    using regroup_days [OF range, of ?g] by simp
  also have "\<dots> = jsum (map trade.pl trips)"
    using jsum_whole [of "map trade.pl trips"] assms by (simp add: comp_def)
  finally show ?thesis by (simp add: day)
qed

text \<open>
  C10, as amended. For every non-empty sequence of round trips with finite profits, the
  cumulative series over the daily series is not empty, and the running total of its last
  entry is the sum, in order of day, of the daily sums, each of them the sum of the
  profits of the day in the order of the round trips. Addition of doubles rounds and is
  not associative, so this total can differ from the totalPL of the metrics, which adds
  the profits one after the other: profits 0.3 on one day and 2.4 and 1.5 on the next
  give 4.2 against 4.199999999999999. The two are equal when every profit is a whole
  number and the absolute values of the profits add up to at most \<open>2^53\<close>.
\<close>

theorem cumulative_last_is_total:
  assumes "trips \<noteq> []" and "\<forall>rt \<in> set trips. finite_num (trade.pl rt)"
  shows "cumulativePL (dailyPL trips) \<noteq> []
       \<and> cumulative (last (cumulativePL (dailyPL trips)))
           = jsum (map (\<lambda>d. jsum (map trade.pl (soldOn d trips)))
                    [Min (sellDay ` set trips) .. Max (sellDay ` set trips)])
       \<and> ((\<forall>rt \<in> set trips. wholeNumber (trade.pl rt))
            \<and> sum_list (map (\<lambda>rt. \<bar>numval (trade.pl rt)\<bar>) trips) \<le> 2 ^ 53 \<longrightarrow>
          cumulative (last (cumulativePL (dailyPL trips))) = jsum (map trade.pl trips)
          \<and> cumulative (last (cumulativePL (dailyPL trips))) = totalPL (metrics trips))"
  using cumulative_last [OF assms] cumulative_whole [of trips]
  by (simp add: totalPL_metrics)

theorem cumulative_last_is_total_witness:
  "cumulative (last (cumulativePL (dailyPL
     [\<lparr> trade.symbol = ''A'', buyPrice = Num 100, sellPrice = Num 150, qty = Num 1, pl = Num 50,
        plPercent = Num 50, buyDate = 1, sellDate = 86400000, cost = Num 100, revenue = Num 150 \<rparr>,
      \<lparr> trade.symbol = ''B'', buyPrice = Num 100, sellPrice = Num 90, qty = Num 2, pl = Num (- 20),
        plPercent = Num (- 10), buyDate = 1, sellDate = 259200005, cost = Num 200, revenue = Num 180 \<rparr>])))
   = Num 30
   \<and> totalPL (metrics
     [\<lparr> trade.symbol = ''A'', buyPrice = Num 100, sellPrice = Num 150, qty = Num 1, pl = Num 50,
        plPercent = Num 50, buyDate = 1, sellDate = 86400000, cost = Num 100, revenue = Num 150 \<rparr>,
      \<lparr> trade.symbol = ''B'', buyPrice = Num 100, sellPrice = Num 90, qty = Num 2, pl = Num (- 20),
        plPercent = Num (- 10), buyDate = 1, sellDate = 259200005, cost = Num 200, revenue = Num 180 \<rparr>])
   = Num 30"
proof -
  let ?trips = "[\<lparr> trade.symbol = ''A'', buyPrice = Num 100, sellPrice = Num 150, qty = Num 1, pl = Num 50,
        plPercent = Num 50, buyDate = 1, sellDate = 86400000, cost = Num 100, revenue = Num 150 \<rparr>,
      \<lparr> trade.symbol = ''B'', buyPrice = Num 100, sellPrice = Num 90, qty = Num 2, pl = Num (- 20),
        plPercent = Num (- 10), buyDate = 1, sellDate = 259200005, cost = Num 200, revenue = Num 180 \<rparr>]"
  have h1: "?trips \<noteq> []" by simp
  have h2: "\<forall>rt \<in> set ?trips. finite_num (trade.pl rt)" by (simp add: finite_num_def)
  show ?thesis
    using cumulative_last_is_total [OF h1 h2]
    by (simp add: jsum_def totalPL_metrics wholeNumber_def jadd_Ints sellDay_def dateKey_def
          soldOn_def upto_rec1)
qed

text \<open>The doubles 0.3, 2.4 and 1.5 as profits, the first sold on day 1, the others on day 2.\<close>

theorem cumulative_rounding_counterexample:
  "cumulative (last (cumulativePL (dailyPL
     [\<lparr> trade.symbol = ''A'', buyPrice = Num 1, sellPrice = Num 1, qty = Num 1, pl = rnd (3 / 10),
        plPercent = Num 0, buyDate = 1, sellDate = 86400000, cost = Num 1, revenue = Num 1 \<rparr>,
      \<lparr> trade.symbol = ''A'', buyPrice = Num 1, sellPrice = Num 1, qty = Num 1, pl = rnd (12 / 5),
        plPercent = Num 0, buyDate = 1, sellDate = 172800000, cost = Num 1, revenue = Num 1 \<rparr>,
      \<lparr> trade.symbol = ''A'', buyPrice = Num 1, sellPrice = Num 1, qty = Num 1, pl = rnd (3 / 2),
        plPercent = Num 0, buyDate = 1, sellDate = 172800001, cost = Num 1, revenue = Num 1 \<rparr>])))
   = Num (4728779608739021 / 1125899906842624)
   \<and> totalPL (metrics
     [\<lparr> trade.symbol = ''A'', buyPrice = Num 1, sellPrice = Num 1, qty = Num 1, pl = rnd (3 / 10),
        plPercent = Num 0, buyDate = 1, sellDate = 86400000, cost = Num 1, revenue = Num 1 \<rparr>,
      \<lparr> trade.symbol = ''A'', buyPrice = Num 1, sellPrice = Num 1, qty = Num 1, pl = rnd (12 / 5),
        plPercent = Num 0, buyDate = 1, sellDate = 172800000, cost = Num 1, revenue = Num 1 \<rparr>,
      \<lparr> trade.symbol = ''A'', buyPrice = Num 1, sellPrice = Num 1, qty = Num 1, pl = rnd (3 / 2),
        plPercent = Num 0, buyDate = 1, sellDate = 172800001, cost = Num 1, revenue = Num 1 \<rparr>])
   = Num (1182194902184755 / 281474976710656)"
proof -
  have a: "rnd (3 / 10) = Num (5404319552844595 / 18014398509481984)"
    using rnd_eval [of "3 / 10" "- 2" 5404319552844595] by simp
  have b: "rnd (12 / 5) = Num (5404319552844595 / 2251799813685248)"
    using rnd_eval [of "12 / 5" 1 5404319552844595] by simp
  have c: "rnd (3 / 2) = Num (3 / 2)"
    using rnd_eval [of "3 / 2" 0 6755399441055744] by simp
  have s1: "jadd (Num 0) (Num (5404319552844595 / 18014398509481984)) = Num (5404319552844595 / 18014398509481984)"
    using rnd_eval [of "0 + 5404319552844595 / 18014398509481984" "- 2" 5404319552844595]
    by (simp add: jadd_Num minNormal_def)
  have s2: "jadd (Num 0) (Num (5404319552844595 / 2251799813685248)) = Num (5404319552844595 / 2251799813685248)"
    using rnd_eval [of "0 + 5404319552844595 / 2251799813685248" 1 5404319552844595]
    by (simp add: jadd_Num minNormal_def)
  have s3: "jadd (Num (5404319552844595 / 2251799813685248)) (Num (3 / 2)) = Num (8782019273372467 / 2251799813685248)"
    using rnd_eval [of "5404319552844595 / 2251799813685248 + 3 / 2" 1 8782019273372467]
    by (simp add: jadd_Num minNormal_def)
  have s4: "jadd (Num (5404319552844595 / 18014398509481984)) (Num (8782019273372467 / 2251799813685248)) = Num (4728779608739021 / 1125899906842624)"
    using rnd_eval [of "5404319552844595 / 18014398509481984 + 8782019273372467 / 2251799813685248" 2 4728779608739021]
    by (simp add: jadd_Num minNormal_def)
  have s5: "jadd (Num (5404319552844595 / 18014398509481984)) (Num (5404319552844595 / 2251799813685248)) = Num (6079859496950169 / 2251799813685248)"
    using rnd_eval [of "5404319552844595 / 18014398509481984 + 5404319552844595 / 2251799813685248" 1 6079859496950169]
    by (simp add: jadd_Num minNormal_def)
  have s6: "jadd (Num (6079859496950169 / 2251799813685248)) (Num (3 / 2)) = Num (1182194902184755 / 281474976710656)"
    using rnd_eval_tie [of "6079859496950169 / 2251799813685248 + 3 / 2" 2 4728779608739020]
    by (simp add: jadd_Num minNormal_def)
  let ?trips = "[\<lparr> trade.symbol = ''A'', buyPrice = Num 1, sellPrice = Num 1, qty = Num 1,
        pl = Num (5404319552844595 / 18014398509481984),
        plPercent = Num 0, buyDate = 1, sellDate = 86400000, cost = Num 1, revenue = Num 1 \<rparr>,
      \<lparr> trade.symbol = ''A'', buyPrice = Num 1, sellPrice = Num 1, qty = Num 1,
        pl = Num (5404319552844595 / 2251799813685248),
        plPercent = Num 0, buyDate = 1, sellDate = 172800000, cost = Num 1, revenue = Num 1 \<rparr>,
      \<lparr> trade.symbol = ''A'', buyPrice = Num 1, sellPrice = Num 1, qty = Num 1, pl = Num (3 / 2),
        plPercent = Num 0, buyDate = 1, sellDate = 172800001, cost = Num 1, revenue = Num 1 \<rparr>]"
  have h1: "?trips \<noteq> []" by simp
  have h2: "\<forall>rt \<in> set ?trips. finite_num (trade.pl rt)" by (simp add: finite_num_def)
  show ?thesis
    unfolding a b c
    using cumulative_last [OF h1 h2]
    by (simp add: totalPL_metrics jsum_def sellDay_def dateKey_def soldOn_def upto_rec1
          s1 s2 s3 s4 s5 s6)
qed

section \<open>C3: a sell that meets an empty queue\<close>

text \<open>
  Where a stable sort puts one element of its input: before it come the elements in
  front of it with a key at most its own and the elements behind it with a smaller key.
\<close>

lemma filter_key_filter:
  "filter (\<lambda>y. v = f y) (filter (\<lambda>a. Q (f a)) as)
   = (if Q v then filter (\<lambda>y. v = f y) as else [])"
  by (induction as) auto

lemma sort_key_around:
  fixes f :: "'a \<Rightarrow> int"
  shows "sort_key f (as @ x # bs) =
           sort_key f (filter (\<lambda>a. f a \<le> f x) as @ filter (\<lambda>b. f b < f x) bs)
           @ x # sort_key f (filter (\<lambda>a. f x < f a) as @ filter (\<lambda>b. f x \<le> f b) bs)"
proof (rule properties_for_sort_key)
  let ?pre = "sort_key f (filter (\<lambda>a. f a \<le> f x) as @ filter (\<lambda>b. f b < f x) bs)"
  let ?post = "sort_key f (filter (\<lambda>a. f x < f a) as @ filter (\<lambda>b. f x \<le> f b) bs)"
  have ma: "mset (filter (\<lambda>a. f a \<le> f x) as) + mset (filter (\<lambda>a. f x < f a) as) = mset as"
    by (induction as) auto
  have mb: "mset (filter (\<lambda>b. f b < f x) bs) + mset (filter (\<lambda>b. f x \<le> f b) bs) = mset bs"
    by (induction bs) auto
  show "mset (?pre @ x # ?post) = mset (as @ x # bs)"
    using ma mb by (simp add: ac_simps) (metis (no_types, lifting) add.assoc add.commute)
  show "sorted (map f (?pre @ x # ?post))"
    by (auto simp: sorted_append)
  fix k assume "k \<in> set (?pre @ x # ?post)"
  have pre: "filter (\<lambda>y. v = f y) ?pre
             = filter (\<lambda>y. v = f y) (filter (\<lambda>a. f a \<le> f x) as @ filter (\<lambda>b. f b < f x) bs)" for v
    using sort_key_stable [of f v] by (simp add: eq_commute [of v])
  have post: "filter (\<lambda>y. v = f y) ?post
             = filter (\<lambda>y. v = f y) (filter (\<lambda>a. f x < f a) as @ filter (\<lambda>b. f x \<le> f b) bs)" for v
    using sort_key_stable [of f v] by (simp add: eq_commute [of v])
  note parts =
    filter_key_filter [where f = f and Q = "\<lambda>v. v \<le> f x" and as = as]
    filter_key_filter [where f = f and Q = "\<lambda>v. v < f x" and as = bs]
    filter_key_filter [where f = f and Q = "\<lambda>v. f x < v" and as = as]
    filter_key_filter [where f = f and Q = "\<lambda>v. f x \<le> v" and as = bs]
  consider (lt) "f k < f x" | (eq) "f k = f x" | (gt) "f x < f k" by linarith
  then show "filter (\<lambda>y. f k = f y) (?pre @ x # ?post) = filter (\<lambda>y. f k = f y) (as @ x # bs)"
  proof cases
    case lt
    then show ?thesis by (simp add: pre post parts del: filter_filter)
  next
    case eq
    then show ?thesis by (simp add: pre post parts del: filter_filter)
  next
    case gt
    then show ?thesis by (simp add: pre post parts del: filter_filter)
  qed
qed

lemma sort_key_without:
  fixes f :: "'a \<Rightarrow> int"
  shows "sort_key f (as @ bs) =
           sort_key f (filter (\<lambda>a. f a \<le> t) as @ filter (\<lambda>b. f b < t) bs)
           @ sort_key f (filter (\<lambda>a. t < f a) as @ filter (\<lambda>b. t \<le> f b) bs)"
proof (rule properties_for_sort_key)
  let ?pre = "sort_key f (filter (\<lambda>a. f a \<le> t) as @ filter (\<lambda>b. f b < t) bs)"
  let ?post = "sort_key f (filter (\<lambda>a. t < f a) as @ filter (\<lambda>b. t \<le> f b) bs)"
  have ma: "mset (filter (\<lambda>a. f a \<le> t) as) + mset (filter (\<lambda>a. t < f a) as) = mset as"
    by (induction as) auto
  have mb: "mset (filter (\<lambda>b. f b < t) bs) + mset (filter (\<lambda>b. t \<le> f b) bs) = mset bs"
    by (induction bs) auto
  show "mset (?pre @ ?post) = mset (as @ bs)"
    using ma mb by (simp add: ac_simps) (metis (no_types, lifting) add.assoc add.commute)
  show "sorted (map f (?pre @ ?post))"
    by (auto simp: sorted_append)
  fix k assume "k \<in> set (?pre @ ?post)"
  have pre: "filter (\<lambda>y. v = f y) ?pre
             = filter (\<lambda>y. v = f y) (filter (\<lambda>a. f a \<le> t) as @ filter (\<lambda>b. f b < t) bs)" for v
    using sort_key_stable [of f v] by (simp add: eq_commute [of v])
  have post: "filter (\<lambda>y. v = f y) ?post
             = filter (\<lambda>y. v = f y) (filter (\<lambda>a. t < f a) as @ filter (\<lambda>b. t \<le> f b) bs)" for v
    using sort_key_stable [of f v] by (simp add: eq_commute [of v])
  note parts =
    filter_key_filter [where f = f and Q = "\<lambda>v. v \<le> t" and as = as]
    filter_key_filter [where f = f and Q = "\<lambda>v. v < t" and as = bs]
    filter_key_filter [where f = f and Q = "\<lambda>v. t < v" and as = as]
    filter_key_filter [where f = f and Q = "\<lambda>v. t \<le> v" and as = bs]
  consider (lt) "f k < t" | (eq) "f k = t" | (gt) "t < f k" by linarith
  then show "filter (\<lambda>y. f k = f y) (?pre @ ?post) = filter (\<lambda>y. f k = f y) (as @ bs)"
  proof cases
    case lt
    then show ?thesis by (simp add: pre post parts del: filter_filter)
  next
    case eq
    then show ?thesis by (simp add: pre post parts del: filter_filter)
  next
    case gt
    then show ?thesis by (simp add: pre post parts del: filter_filter)
  qed
qed

text \<open>
  The input is \<open>xs @ ord # ys\<close>. The pass over the symbol of \<open>ord\<close> processes, before
  \<open>ord\<close>, the symbol's filled orders of \<open>xs\<close> filled no later than \<open>ord\<close> and those of \<open>ys\<close>
  filled earlier than \<open>ord\<close>; the others come after \<open>ord\<close>.
\<close>

definition processedBefore :: "order \<Rightarrow> order list \<Rightarrow> order list \<Rightarrow> order list" where
  "processedBefore ord xs ys =
     sort_key filled_at
       (filter (\<lambda>a. filled_at a \<le> filled_at ord) (ordersOf (order.symbol ord) xs)
        @ filter (\<lambda>b. filled_at b < filled_at ord) (ordersOf (order.symbol ord) ys))"

definition processedAfter :: "order \<Rightarrow> order list \<Rightarrow> order list \<Rightarrow> order list" where
  "processedAfter ord xs ys =
     sort_key filled_at
       (filter (\<lambda>a. filled_at ord < filled_at a) (ordersOf (order.symbol ord) xs)
        @ filter (\<lambda>b. filled_at ord \<le> filled_at b) (ordersOf (order.symbol ord) ys))"

lemma ordersOf_append: "ordersOf s (xs @ ys) = ordersOf s xs @ ordersOf s ys"
  by (simp add: ordersOf_def filledOrders_def)

lemma ordersOf_Cons:
  "ordersOf s (ord # ys) =
     (if order.status ord = ''filled'' \<and> order.symbol ord = s then ord # ordersOf s ys
      else ordersOf s ys)"
  by (simp add: ordersOf_def filledOrders_def)

lemma pass_with:
  assumes "order.status ord = ''filled''"
  shows "sort_key filled_at (ordersOf (order.symbol ord) (xs @ ord # ys))
         = processedBefore ord xs ys @ ord # processedAfter ord xs ys"
  using assms sort_key_around [of filled_at "ordersOf (order.symbol ord) xs" ord
                                 "ordersOf (order.symbol ord) ys"]
  by (simp add: ordersOf_append ordersOf_Cons processedBefore_def processedAfter_def)

lemma pass_without:
  "sort_key filled_at (ordersOf (order.symbol ord) (xs @ ys))
   = processedBefore ord xs ys @ processedAfter ord xs ys"
  using sort_key_without [of filled_at "ordersOf (order.symbol ord) xs"
                             "ordersOf (order.symbol ord) ys" "filled_at ord"]
  by (simp add: ordersOf_append processedBefore_def processedAfter_def)

lemma queueStep_sell_empty: "side ord = ''sell'' \<Longrightarrow> queueStep [] ord = ([], [])"
  by (simp add: queueStep_def)

lemma symbolTrips_without:
  assumes "order.status ord = ''filled''" and "side ord = ''sell''"
    and "fst (run (order.symbol ord) [] (processedBefore ord xs ys)) = []"
  shows "symbolTrips s (ordersOf s (xs @ ord # ys)) = symbolTrips s (ordersOf s (xs @ ys))"
proof (cases "s = order.symbol ord")
  case False
  then show ?thesis by (simp add: ordersOf_append ordersOf_Cons)
next
  case True
  have "run s [] (processedBefore ord xs ys @ ord # processedAfter ord xs ys)
        = run s [] (processedBefore ord xs ys @ processedAfter ord xs ys)"
    using assms(2,3) unfolding True
    by (simp add: run_append queueStep_sell_empty tripsOfMatches_def)
  moreover have "symbolTrips s (ordersOf s (xs @ ord # ys))
        = snd (run s [] (processedBefore ord xs ys @ ord # processedAfter ord xs ys))"
    using pass_with [OF assms(1), of xs ys] by (simp add: symbolTrips_def True)
  moreover have "symbolTrips s (ordersOf s (xs @ ys))
        = snd (run s [] (processedBefore ord xs ys @ processedAfter ord xs ys))"
    using pass_without [of ord xs ys] by (simp add: symbolTrips_def True)
  ultimately show ?thesis by simp
qed

lemma remdups_seen: "a \<in> set ys \<Longrightarrow> remdups (xs @ a # ys) = remdups (xs @ ys)"
  by (induction xs) auto

lemma firstSeen_without:
  assumes "order.symbol ord \<in> order.symbol ` set as"
  shows "firstSeen (as @ ord # bs) = firstSeen (as @ bs)"
proof -
  have "order.symbol ord \<in> set (rev (map order.symbol as))" using assms by simp
  then have "remdups (rev (map order.symbol bs) @ order.symbol ord # rev (map order.symbol as))
             = remdups (rev (map order.symbol bs) @ rev (map order.symbol as))"
    by (rule remdups_seen)
  then show ?thesis by (simp add: firstSeen_def)
qed

lemma filledOrders_append: "filledOrders (xs @ ys) = filledOrders xs @ filledOrders ys"
  by (simp add: filledOrders_def)

lemma ordersOf_nonempty: "(ordersOf s os \<noteq> []) = (s \<in> order.symbol ` set (filledOrders os))"
  by (auto simp: ordersOf_def filter_empty_conv)

lemma allRoundTrips_keys:
  "allRoundTrips orders =
     concat (map (\<lambda>k. symbolTrips k (ordersOf k orders)) (firstSeen (filledOrders orders)))"
  by (simp add: allRoundTrips_concat ordersBySymbol_eq comp_def)

lemma statOf_Nil: "statOf [] = mkStat (Num 0) 0 0"
  by (simp add: statOf_def jsum_def)

text \<open>
  C3, as amended. A filled sell order that is processed while the queue of its symbol is
  empty pushes no round trip and adds nothing to a realized profit or to a win or loss
  count. For every symbol the round trips of both pages are the same as if the sell were
  absent from the input, and so are the statistics of every symbol that has another
  filled order; a symbol whose only filled orders are such sells still gets a
  statistics entry, with zero realized profit and zero trades. When a filled order of
  the same symbol stands before the sell in the input, the whole output of both pages is
  the same as if the sell were absent.
\<close>

theorem sell_on_empty_queue:
  assumes "order.status ord = ''filled''" and "side ord = ''sell''"
    and "fst (foldl (processOrder (order.symbol ord)) ([], []) (processedBefore ord xs ys)) = []"
  shows "(\<forall>s. filter (\<lambda>rt. trade.symbol rt = s) (roundTrips (Some (xs @ ord # ys)))
              = filter (\<lambda>rt. trade.symbol rt = s) (roundTrips (Some (xs @ ys))))
       \<and> (\<forall>s. filter (\<lambda>t. trade.symbol t = s) (fst (tradeHistory (Some (xs @ ord # ys))))
              = filter (\<lambda>t. trade.symbol t = s) (fst (tradeHistory (Some (xs @ ys)))))
       \<and> (\<forall>s. map_of (snd (tradeHistory (Some (xs @ ord # ys)))) s
              = (if s = order.symbol ord \<and> ordersOf s (xs @ ys) = [] then Some (mkStat (Num 0) 0 0)
                 else map_of (snd (tradeHistory (Some (xs @ ys)))) s))
       \<and> (ordersOf (order.symbol ord) xs \<noteq> [] \<longrightarrow>
            roundTrips (Some (xs @ ord # ys)) = roundTrips (Some (xs @ ys))
            \<and> tradeHistory (Some (xs @ ord # ys)) = tradeHistory (Some (xs @ ys)))"
proof -
  have empty: "fst (run (order.symbol ord) [] (processedBefore ord xs ys)) = []"
    using assms(3) by (simp add: foldl_processOrder)
  have same: "symbolTrips s (ordersOf s (xs @ ord # ys)) = symbolTrips s (ordersOf s (xs @ ys))" for s
    using assms(1,2) empty by (rule symbolTrips_without)
  have one: "\<forall>s. filter (\<lambda>rt. trade.symbol rt = s) (roundTrips (Some (xs @ ord # ys)))
              = filter (\<lambda>rt. trade.symbol rt = s) (roundTrips (Some (xs @ ys)))"
    unfolding filter_roundTrips same by simp
  have two: "\<forall>s. filter (\<lambda>t. trade.symbol t = s) (fst (tradeHistory (Some (xs @ ord # ys))))
              = filter (\<lambda>t. trade.symbol t = s) (fst (tradeHistory (Some (xs @ ys))))"
    unfolding filter_tradeHistory same by simp
  have keys: "order.symbol ` set (filledOrders (xs @ ord # ys))
              = insert (order.symbol ord) (order.symbol ` set (filledOrders (xs @ ys)))"
    using assms(1) by (auto simp: filledOrders_def)
  have three: "\<forall>s. map_of (snd (tradeHistory (Some (xs @ ord # ys)))) s
              = (if s = order.symbol ord \<and> ordersOf s (xs @ ys) = [] then Some (mkStat (Num 0) 0 0)
                 else map_of (snd (tradeHistory (Some (xs @ ys)))) s)"
  proof
    fix s
    show "map_of (snd (tradeHistory (Some (xs @ ord # ys)))) s
              = (if s = order.symbol ord \<and> ordersOf s (xs @ ys) = [] then Some (mkStat (Num 0) 0 0)
                 else map_of (snd (tradeHistory (Some (xs @ ys)))) s)"
      unfolding map_of_tradeHistory_stats same keys
      using ordersOf_nonempty [of s "xs @ ys"] by (auto simp: statOf_Nil)
  qed
  have four: "ordersOf (order.symbol ord) xs \<noteq> [] \<longrightarrow>
            roundTrips (Some (xs @ ord # ys)) = roundTrips (Some (xs @ ys))
            \<and> tradeHistory (Some (xs @ ord # ys)) = tradeHistory (Some (xs @ ys))"
  proof
    assume "ordersOf (order.symbol ord) xs \<noteq> []"
    then have "order.symbol ord \<in> order.symbol ` set (filledOrders xs)"
      by (simp add: ordersOf_nonempty)
    then have k: "firstSeen (filledOrders (xs @ ord # ys)) = firstSeen (filledOrders (xs @ ys))"
      using assms(1) firstSeen_without [of ord "filledOrders xs" "filledOrders ys"]
      by (simp add: filledOrders_def)
    have a: "allRoundTrips (xs @ ord # ys) = allRoundTrips (xs @ ys)"
      unfolding allRoundTrips_keys k same by simp
    have "snd (tradeHistory (Some (xs @ ord # ys))) = snd (tradeHistory (Some (xs @ ys)))"
      unfolding tradeHistory_stats k same by simp
    moreover have "fst (tradeHistory (Some (xs @ ord # ys))) = fst (tradeHistory (Some (xs @ ys)))"
      unfolding tradeHistory_trips a by simp
    ultimately have "tradeHistory (Some (xs @ ord # ys)) = tradeHistory (Some (xs @ ys))"
      by (rule prod_eqI [rotated])
    then show "roundTrips (Some (xs @ ord # ys)) = roundTrips (Some (xs @ ys))
            \<and> tradeHistory (Some (xs @ ord # ys)) = tradeHistory (Some (xs @ ys))"
      using a by simp
  qed
  show ?thesis using one two three four by blast
qed

theorem sell_on_empty_queue_witness:
  "roundTrips (Some ([filledOrder ''A'' ''buy'' 1 10 1, filledOrder ''A'' ''sell'' 1 12 2]
                     @ filledOrder ''A'' ''sell'' 1 13 3
                     # [filledOrder ''B'' ''buy'' 2 5 4, filledOrder ''B'' ''sell'' 2 4 5]))
   = roundTrips (Some ([filledOrder ''A'' ''buy'' 1 10 1, filledOrder ''A'' ''sell'' 1 12 2]
                       @ [filledOrder ''B'' ''buy'' 2 5 4, filledOrder ''B'' ''sell'' 2 4 5]))
   \<and> tradeHistory (Some ([filledOrder ''A'' ''buy'' 1 10 1, filledOrder ''A'' ''sell'' 1 12 2]
                     @ filledOrder ''A'' ''sell'' 1 13 3
                     # [filledOrder ''B'' ''buy'' 2 5 4, filledOrder ''B'' ''sell'' 2 4 5]))
   = tradeHistory (Some ([filledOrder ''A'' ''buy'' 1 10 1, filledOrder ''A'' ''sell'' 1 12 2]
                       @ [filledOrder ''B'' ''buy'' 2 5 4, filledOrder ''B'' ''sell'' 2 4 5]))"
proof -
  let ?xs = "[filledOrder ''A'' ''buy'' 1 10 1, filledOrder ''A'' ''sell'' 1 12 2]"
  let ?ord = "filledOrder ''A'' ''sell'' 1 13 3"
  let ?ys = "[filledOrder ''B'' ''buy'' 2 5 4, filledOrder ''B'' ''sell'' 2 4 5]"
  have h1: "order.status ?ord = ''filled''" by simp
  have h2: "side ?ord = ''sell''" by simp
  have h3: "fst (foldl (processOrder (order.symbol ?ord)) ([], []) (processedBefore ?ord ?xs ?ys)) = []"
    by (simp add: processedBefore_def ordersOf_def filledOrders_def matcher_defs matchLoop.simps)
  have h4: "ordersOf (order.symbol ?ord) ?xs \<noteq> []"
    by (simp add: ordersOf_def filledOrders_def)
  show ?thesis
    using sell_on_empty_queue [OF h1 h2 h3] h4 by blast
qed

theorem sell_on_empty_queue_counterexample:
  "fst (foldl (processOrder ''A'') ([], [])
          (processedBefore (filledOrder ''A'' ''sell'' 1 13 3) [] [])) = []
   \<and> tradeHistory (Some [filledOrder ''A'' ''sell'' 1 13 3])
     = ([], [(''A'', \<lparr> realizedPL = Num 0, trades = 0, winCount = 0, lossCount = 0,
                       winRate = Num 0 \<rparr>)])
   \<and> tradeHistory (Some []) = ([], [])
   \<and> fst (foldl (processOrder ''A'') ([], [])
          (processedBefore (filledOrder ''A'' ''sell'' 1 13 0) []
             [filledOrder ''B'' ''buy'' 1 10 1, filledOrder ''B'' ''sell'' 1 11 3,
              filledOrder ''A'' ''buy'' 1 10 2, filledOrder ''A'' ''sell'' 1 11 3])) = []
   \<and> map trade.symbol
       (roundTrips (Some [filledOrder ''A'' ''sell'' 1 13 0,
                          filledOrder ''B'' ''buy'' 1 10 1, filledOrder ''B'' ''sell'' 1 11 3,
                          filledOrder ''A'' ''buy'' 1 10 2, filledOrder ''A'' ''sell'' 1 11 3]))
     = [''A'', ''B'']
   \<and> map trade.symbol
       (roundTrips (Some [filledOrder ''B'' ''buy'' 1 10 1, filledOrder ''B'' ''sell'' 1 11 3,
                          filledOrder ''A'' ''buy'' 1 10 2, filledOrder ''A'' ''sell'' 1 11 3]))
     = [''B'', ''A'']"
  by (simp add: processedBefore_def ordersOf_def filledOrders_def matcher_defs
                matchLoop.simps matchLoopT.simps)

end
